theory Spec2Isabelle
  imports Complex_Main "HOL-Library.Word"
begin

section \<open>The LWR-PRF client: a model of \<^verbatim>\<open>lwr-prf-client.py\<close>\<close>

text \<open>
  The client keeps its hash vectors and its secret key in NumPy arrays of
  \<^verbatim>\<open>dtype=np.uint64\<close>, so every value that flows out of \<^verbatim>\<open>np.dot\<close> is a
  64-bit unsigned scalar and arithmetic on it wraps modulo \<open>2 ^ 64\<close>. The
  parameters \<^verbatim>\<open>n\<close>, \<^verbatim>\<open>N\<close>, \<^verbatim>\<open>p\<close> and the message elements are Python integers
  (unbounded). The model follows NumPy 2 (NEP 50): in a binary operation of a
  \<^verbatim>\<open>np.uint64\<close> scalar with a Python integer the result is \<^verbatim>\<open>np.uint64\<close>, and
  the Python integer is converted first, which raises \<^verbatim>\<open>OverflowError\<close> when it
  is negative or not below \<open>2 ^ 64\<close>. Integer division and remainder of NumPy
  integers by zero give \<open>0\<close> (with a warning), where Python integers raise
  \<^verbatim>\<open>ZeroDivisionError\<close>.
\<close>

subsection \<open>Machine integers, bytes and errors\<close>

type_synonym u8 = "8 word"
type_synonym u64 = "64 word"
type_synonym bytes = "u8 list"

datatype py_error =
    OverflowError
  | ZeroDivisionError
  | ValueError_DimensionMismatch
  | ValueError_NonBinary
  | ValueError_ShapesNotAligned
  | IndexError

text \<open>A Python integer entering \<^verbatim>\<open>np.uint64\<close> arithmetic or a \<^verbatim>\<open>uint64\<close> array.\<close>

definition to_u64 :: "int \<Rightarrow> py_error + u64" where
  "to_u64 v = (if 0 \<le> v \<and> v < 2 ^ 64 then Inr (word_of_int v) else Inl OverflowError)"

text \<open>\<^verbatim>\<open>%\<close> and \<^verbatim>\<open>//\<close> on \<^verbatim>\<open>np.uint64\<close> scalars: division by zero yields zero.\<close>

definition np_remainder :: "u64 \<Rightarrow> u64 \<Rightarrow> u64" where
  "np_remainder a b = (if b = 0 then 0 else a mod b)"

definition np_floor_divide :: "u64 \<Rightarrow> u64 \<Rightarrow> u64" where
  "np_floor_divide a b = (if b = 0 then 0 else a div b)"

text \<open>
  \<^verbatim>\<open>np.dot\<close> of two one-dimensional \<^verbatim>\<open>uint64\<close> arrays: a \<^verbatim>\<open>ValueError\<close> when the
  lengths differ, otherwise the sum of the products accumulated in \<^verbatim>\<open>uint64\<close>.
\<close>

definition dot_u64 :: "u64 list \<Rightarrow> u64 list \<Rightarrow> u64" where
  "dot_u64 a b = fold (\<lambda>(x, y) acc. acc + x * y) (zip a b) 0"

definition np_dot :: "u64 list \<Rightarrow> u64 list \<Rightarrow> py_error + u64" where
  "np_dot a b =
     (if length a \<noteq> length b then Inl ValueError_ShapesNotAligned
      else Inr (dot_u64 a b))"

text \<open>\<^verbatim>\<open>int.to_bytes(length, 'little')\<close> and \<^verbatim>\<open>int.from_bytes(bs, 'little')\<close>.\<close>

fun le_bytes :: "nat \<Rightarrow> int \<Rightarrow> bytes" where
  "le_bytes 0 v = []"
| "le_bytes (Suc k) v = word_of_int (v mod 256) # le_bytes k (v div 256)"

definition to_bytes_little :: "int \<Rightarrow> nat \<Rightarrow> py_error + bytes" where
  "to_bytes_little v len =
     (if v < 0 \<or> 256 ^ len \<le> v then Inl OverflowError else Inr (le_bytes len v))"

fun from_bytes_little :: "bytes \<Rightarrow> int" where
  "from_bytes_little [] = 0"
| "from_bytes_little (b # bs) = uint b + 256 * from_bytes_little bs"

text \<open>The slice \<^verbatim>\<open>xs[lo:hi]\<close> for \<open>0 \<le> lo \<le> hi\<close>; it is cut at the end of \<open>xs\<close>.\<close>

definition py_slice :: "'a list \<Rightarrow> nat \<Rightarrow> nat \<Rightarrow> 'a list" where
  "py_slice xs lo hi = take (hi - lo) (drop lo xs)"

subsection \<open>The extendable-output hash\<close>

text \<open>
  \<^verbatim>\<open>hashlib.shake_256\<close> is a library function. It enters the model as a
  parameter \<open>shake\<close>: \<open>shake msg j\<close> is byte \<open>j\<close> of the output stream for the
  absorbed message \<open>msg\<close>. A hasher object is the sequence of bytes absorbed so
  far; \<^verbatim>\<open>update\<close> appends, and \<^verbatim>\<open>digest(k)\<close> returns the first \<open>k\<close> bytes of the
  stream.
\<close>

type_synonym xof = "bytes \<Rightarrow> nat \<Rightarrow> u8"

definition shake_new :: bytes where
  "shake_new = []"

definition shake_update :: "bytes \<Rightarrow> bytes \<Rightarrow> bytes" where
  "shake_update hasher bs = hasher @ bs"

definition shake_digest :: "xof \<Rightarrow> bytes \<Rightarrow> nat \<Rightarrow> bytes" where
  "shake_digest shake hasher k = map (shake hasher) [0..<k]"

subsection \<open>The client object\<close>

text \<open>
  The fields of \<^verbatim>\<open>LWR_PRF_Client\<close>. The dimension \<^verbatim>\<open>n\<close> is a count (a natural
  number); \<^verbatim>\<open>N\<close> and \<^verbatim>\<open>p\<close> are Python integers; \<^verbatim>\<open>s\<close> is a \<^verbatim>\<open>uint64\<close> array.
\<close>

record client =
  self_n :: nat
  self_N :: int
  self_p :: int
  self_key_file :: string
  self_s :: "u64 list"

subsection \<open>Loading the secret key (lines 74--94)\<close>

text \<open>
  The parsed JSON object of the key file. \<^verbatim>\<open>json.load\<close> reads an integer literal
  as a Python integer and any other number as a Python float; a float is
  modelled by its exact value.
\<close>

datatype json_number = JInt int | JFloat real

record key_data =
  n_lwr :: int
  secret_key :: "json_number list"

text \<open>
  Storing one element into a \<^verbatim>\<open>uint64\<close> array. A Python integer must be in
  range. A Python float is first truncated towards zero (\<^verbatim>\<open>int(x)\<close>), and the
  truncated value must be in range as well: a negative one or one not below
  \<open>2 ^ 64\<close> raises \<^verbatim>\<open>OverflowError\<close>.
\<close>

definition py_trunc :: "real \<Rightarrow> int" where
  "py_trunc x = (if 0 \<le> x then \<lfloor>x\<rfloor> else \<lceil>x\<rceil>)"

fun u64_setitem :: "json_number \<Rightarrow> py_error + u64" where
  "u64_setitem (JInt v) = to_u64 v"
| "u64_setitem (JFloat x) = to_u64 (py_trunc x)"

text \<open>\<^verbatim>\<open>np.array(values, dtype=np.uint64)\<close> on a list of numbers.\<close>

fun np_array_u64 :: "json_number list \<Rightarrow> py_error + u64 list" where
  "np_array_u64 [] = Inr []"
| "np_array_u64 (v # vs) =
     (case u64_setitem v of
        Inl e \<Rightarrow> Inl e
      | Inr w \<Rightarrow>
          (case np_array_u64 vs of
             Inl e \<Rightarrow> Inl e
           | Inr ws \<Rightarrow> Inr (w # ws)))"

text \<open>
  \<^verbatim>\<open>_load_secret_key\<close>: the dimension check, the conversion of the stored list,
  the assignment to \<^verbatim>\<open>self.s\<close>, and the check that every element of the array
  is \<open>0\<close> or \<open>1\<close>. Reading and parsing the file are outside the model, and so are
  stored elements that are not numbers and the float values NaN and Infinity.
\<close>

definition load_secret_key :: "client \<Rightarrow> key_data \<Rightarrow> py_error + client" where
  "load_secret_key c kd =
     (if n_lwr kd \<noteq> int (self_n c) then Inl ValueError_DimensionMismatch
      else
        (case np_array_u64 (secret_key kd) of
           Inl e \<Rightarrow> Inl e
         | Inr arr \<Rightarrow>
             (let c' = c\<lparr>self_s := arr\<rparr> in
              if \<not> list_all (\<lambda>v. v = 0 \<or> v = 1) (self_s c')
              then Inl ValueError_NonBinary
              else Inr c')))"

subsection \<open>The domain hash (lines 96--124)\<close>

text \<open>
  The loop \<^verbatim>\<open>for i in range(self.n)\<close> over the indices still to visit. The
  remainder \<^verbatim>\<open>value % (2 * self.N)\<close> is taken on Python integers and then stored
  into the \<^verbatim>\<open>uint64\<close> array at position \<open>i\<close>.
\<close>

fun hash_to_vector_loop :: "int \<Rightarrow> bytes \<Rightarrow> nat list \<Rightarrow> u64 list \<Rightarrow> py_error + u64 list" where
  "hash_to_vector_loop N digest [] a = Inr a"
| "hash_to_vector_loop N digest (i # is) a =
     (let val = from_bytes_little (py_slice digest (i * 8) ((i + 1) * 8)) in
      if 2 * N = 0 then Inl ZeroDivisionError
      else
        (case to_u64 (val mod (2 * N)) of
           Inl e \<Rightarrow> Inl e
         | Inr v \<Rightarrow>
             if length a \<le> i then Inl IndexError
             else hash_to_vector_loop N digest is (a[i := v])))"

definition hash_to_vector :: "xof \<Rightarrow> client \<Rightarrow> bytes \<Rightarrow> int \<Rightarrow> py_error + u64 list" where
  "hash_to_vector shake c x index =
     (let hasher = shake_update shake_new x in
      case to_bytes_little index 8 of
        Inl e \<Rightarrow> Inl e
      | Inr index_bytes \<Rightarrow>
          (let hasher = shake_update hasher index_bytes;
               digest = shake_digest shake hasher (self_n c * 8);
               a = replicate (self_n c) 0
           in hash_to_vector_loop (self_N c) digest [0..<self_n c] a))"

subsection \<open>The PRF evaluator (lines 126--165)\<close>

text \<open>
  Lines 140--165 of \<^verbatim>\<open>evaluate\<close>, as a function of the hash vector \<open>a\<close>. Every
  intermediate value is a \<^verbatim>\<open>np.uint64\<close> scalar; \<^verbatim>\<open>2 * self.N\<close>, \<^verbatim>\<open>self.N\<close> and
  \<^verbatim>\<open>self.p\<close> are converted where they first meet one. The comparison
  \<^verbatim>\<open>inner_mod_2N >= self.N\<close> compares the values.
\<close>

definition evaluate_body :: "client \<Rightarrow> u64 list \<Rightarrow> py_error + u64" where
  "evaluate_body c a =
     (case np_dot a (self_s c) of
        Inl e \<Rightarrow> Inl e
      | Inr inner_product \<Rightarrow>
     (case to_u64 (2 * self_N c) of
        Inl e \<Rightarrow> Inl e
      | Inr two_N \<Rightarrow>
     (let inner_mod_2N = np_remainder inner_product two_N;
          msb = (if self_N c \<le> uint inner_mod_2N then 1 else 0 :: nat)
      in
     (case to_u64 (self_N c) of
        Inl e \<Rightarrow> Inl e
      | Inr N' \<Rightarrow>
     (let inner_mod_N = np_remainder inner_product N' in
     (case to_u64 (self_p c) of
        Inl e \<Rightarrow> Inl e
      | Inr p' \<Rightarrow>
     (let rounded = np_floor_divide (p' * inner_mod_N) N' in
      if msb = 1 then Inr (np_remainder (p' - rounded) p')
      else Inr (np_remainder rounded p'))))))))"

definition evaluate :: "xof \<Rightarrow> client \<Rightarrow> bytes \<Rightarrow> py_error + u64" where
  "evaluate shake c x =
     (case hash_to_vector shake c x 0 of
        Inl e \<Rightarrow> Inl e
      | Inr a \<Rightarrow> evaluate_body c a)"

subsection \<open>The keystream generator (lines 167--197)\<close>

text \<open>The body of the loop of \<^verbatim>\<open>evaluate_multiple\<close> (lines 181--193) at slot \<open>i\<close>.\<close>

definition evaluate_multiple_slot :: "xof \<Rightarrow> client \<Rightarrow> bytes \<Rightarrow> nat \<Rightarrow> py_error + u64" where
  "evaluate_multiple_slot shake c x i =
     (case hash_to_vector shake c x (int i) of
        Inl e \<Rightarrow> Inl e
      | Inr a \<Rightarrow>
     (case np_dot a (self_s c) of
        Inl e \<Rightarrow> Inl e
      | Inr inner_product \<Rightarrow>
     (case to_u64 (2 * self_N c) of
        Inl e \<Rightarrow> Inl e
      | Inr two_N \<Rightarrow>
     (let inner_mod_2N = np_remainder inner_product two_N;
          msb = (if self_N c \<le> uint inner_mod_2N then 1 else 0 :: nat)
      in
     (case to_u64 (self_N c) of
        Inl e \<Rightarrow> Inl e
      | Inr N' \<Rightarrow>
     (let inner_mod_N = np_remainder inner_product N' in
     (case to_u64 (self_p c) of
        Inl e \<Rightarrow> Inl e
      | Inr p' \<Rightarrow>
     (let rounded = np_floor_divide (p' * inner_mod_N) N' in
      if msb = 1 then Inr (np_remainder (p' - rounded) p')
      else Inr (np_remainder rounded p')))))))))"

text \<open>The loop \<^verbatim>\<open>for i in range(count)\<close> with its accumulator \<^verbatim>\<open>outputs\<close>.\<close>

fun evaluate_multiple_loop ::
  "xof \<Rightarrow> client \<Rightarrow> bytes \<Rightarrow> nat list \<Rightarrow> u64 list \<Rightarrow> py_error + u64 list" where
  "evaluate_multiple_loop shake c x [] outputs = Inr outputs"
| "evaluate_multiple_loop shake c x (i # is) outputs =
     (case evaluate_multiple_slot shake c x i of
        Inl e \<Rightarrow> Inl e
      | Inr result \<Rightarrow> evaluate_multiple_loop shake c x is (outputs @ [result]))"

text \<open>\<^verbatim>\<open>range(count)\<close> is empty for a negative \<^verbatim>\<open>count\<close>.\<close>

definition evaluate_multiple :: "xof \<Rightarrow> client \<Rightarrow> bytes \<Rightarrow> int \<Rightarrow> py_error + u64 list" where
  "evaluate_multiple shake c x count = evaluate_multiple_loop shake c x [0..<nat count] []"

subsection \<open>The transcipher (lines 199--239)\<close>

text \<open>
  The comprehension of line 214 over \<^verbatim>\<open>zip(message, prf_stream)\<close>: the message
  element is a Python integer, the keystream element a \<^verbatim>\<open>np.uint64\<close> scalar, so
  the sum and the remainder are \<^verbatim>\<open>uint64\<close> operations. \<^verbatim>\<open>zip\<close> stops at the end
  of the shorter sequence.
\<close>

fun encrypt_zip :: "int \<Rightarrow> int list \<Rightarrow> u64 list \<Rightarrow> py_error + u64 list" where
  "encrypt_zip p (m # message) (prf # prf_stream) =
     (case to_u64 m of
        Inl e \<Rightarrow> Inl e
      | Inr m' \<Rightarrow>
     (case to_u64 p of
        Inl e \<Rightarrow> Inl e
      | Inr p' \<Rightarrow>
     (case encrypt_zip p message prf_stream of
        Inl e \<Rightarrow> Inl e
      | Inr ciphertext \<Rightarrow> Inr (np_remainder (m' + prf) p' # ciphertext))))"
| "encrypt_zip p message prf_stream = Inr []"

definition encrypt_message ::
  "xof \<Rightarrow> client \<Rightarrow> int list \<Rightarrow> bytes \<Rightarrow> py_error + (bytes \<times> u64 list)" where
  "encrypt_message shake c message nonce =
     (case evaluate_multiple shake c nonce (int (length message)) of
        Inl e \<Rightarrow> Inl e
      | Inr prf_stream \<Rightarrow>
          (case encrypt_zip (self_p c) message prf_stream of
             Inl e \<Rightarrow> Inl e
           | Inr ciphertext \<Rightarrow> Inr (nonce, ciphertext)))"

text \<open>
  The comprehension of line 237. \<^verbatim>\<open>int(c)\<close> and \<^verbatim>\<open>int(prf)\<close> turn both operands
  into Python integers, so this arithmetic is unbounded and \<^verbatim>\<open>%\<close> raises on a
  zero modulus. The ciphertext enters as the integer values of its elements
  (\<open>map uint\<close> of what \<^verbatim>\<open>encrypt_message\<close> returns).
\<close>

fun decrypt_zip :: "int \<Rightarrow> int list \<Rightarrow> u64 list \<Rightarrow> py_error + int list" where
  "decrypt_zip p (c # ciphertext) (prf # prf_stream) =
     (if p = 0 then Inl ZeroDivisionError
      else
        (case decrypt_zip p ciphertext prf_stream of
           Inl e \<Rightarrow> Inl e
         | Inr message \<Rightarrow> Inr ((c + p - uint prf) mod p # message)))"
| "decrypt_zip p ciphertext prf_stream = Inr []"

definition decrypt_message :: "xof \<Rightarrow> client \<Rightarrow> bytes \<Rightarrow> int list \<Rightarrow> py_error + int list" where
  "decrypt_message shake c nonce ciphertext =
     (case evaluate_multiple shake c nonce (int (length ciphertext)) of
        Inl e \<Rightarrow> Inl e
      | Inr prf_stream \<Rightarrow> decrypt_zip (self_p c) ciphertext prf_stream)"

section \<open>The specification's words\<close>

text \<open>
  The domain hash as the specification describes it: absorb the input, then
  the 8-byte little-endian encoding of the index; partition the output stream
  into consecutive 8-byte little-endian unsigned integers; reduce each modulo
  \<open>2N\<close>.
\<close>

definition le_encode8 :: "int \<Rightarrow> bytes" where
  "le_encode8 i = map (\<lambda>k. word_of_int (i div 256 ^ k mod 256)) [0..<8]"

definition le_decode :: "bytes \<Rightarrow> int" where
  "le_decode bs = (\<Sum>k<length bs. uint (bs ! k) * 256 ^ k)"

definition hash_to_vector_spec :: "xof \<Rightarrow> nat \<Rightarrow> int \<Rightarrow> bytes \<Rightarrow> int \<Rightarrow> int list" where
  "hash_to_vector_spec shake n N x index =
     (let stream = shake (x @ le_encode8 index) in
      map (\<lambda>j. le_decode (map stream [8 * j..<8 * j + 8]) mod (2 * N)) [0..<n])"

text \<open>
  The evaluator as the specification describes it, over the integers: the
  inner product, the sign bit from the remainder modulo \<open>2N\<close>, the separate
  remainder modulo \<open>N\<close>, the floor of \<open>p * ip_mod_N / N\<close>, and the final
  remainder modulo \<open>p\<close> in both branches.
\<close>

definition evaluate_at_spec :: "int \<Rightarrow> int \<Rightarrow> int list \<Rightarrow> int list \<Rightarrow> int" where
  "evaluate_at_spec N p a s =
     (let ip = (\<Sum>i<length a. a ! i * s ! i);
          ip_mod_2N = ip mod (2 * N);
          msb = (if N \<le> ip_mod_2N then 1 else 0 :: nat);
          ip_mod_N = ip mod N;
          rounded = \<lfloor>real_of_int (p * ip_mod_N) / real_of_int N\<rfloor>
      in if msb = 1 then (p - rounded) mod p else rounded mod p)"

section \<open>Auxiliary definitions for the proofs\<close>

text \<open>The value that the loop of \<^verbatim>\<open>hash_to_vector\<close> stores at position \<open>i\<close> (lines 121--122).\<close>

definition slot_value :: "int \<Rightarrow> bytes \<Rightarrow> nat \<Rightarrow> int" where
  "slot_value N digest i = from_bytes_little (py_slice digest (i * 8) ((i + 1) * 8)) mod (2 * N)"

text \<open>
  Lines 145--163 on in-range parameters, as a function of the inner product:
  what \<open>evaluate_body\<close> returns once the conversions have succeeded.
\<close>

definition lwr_round :: "int \<Rightarrow> int \<Rightarrow> u64 \<Rightarrow> u64" where
  "lwr_round N p ip =
     (let N' = word_of_int N; p' = word_of_int p;
          rounded = np_floor_divide (p' * np_remainder ip N') N'
      in if N \<le> uint (np_remainder ip (word_of_int (2 * N)))
         then np_remainder (p' - rounded) p' else np_remainder rounded p')"

text \<open>A hash stream and a client object to instantiate the theorems at.\<close>

definition demo_shake :: xof where
  "demo_shake msg j = word_of_nat (length msg + 7 * j)"

definition demo_client :: client where
  "demo_client =
     \<lparr>self_n = 445, self_N = 2048, self_p = 32, self_key_file = ''secret_key.json'',
      self_s = replicate 445 1\<rparr>"

text \<open>The message of the example run at the end of the source file.\<close>

definition demo_message :: "int list" where
  "demo_message = [10, 20, 15, 8, 31, 18, 0, 21, 3, 6]"

text \<open>A client of dimension \<open>2\<close> before its key is loaded.\<close>

definition small_client :: client where
  "small_client =
     \<lparr>self_n = 2, self_N = 2048, self_p = 32, self_key_file = ''secret_key.json'', self_s = []\<rparr>"

text \<open>
  Parameters within the specification's invariant (\<open>N\<close> a power of two,
  \<open>1 \<le> p \<le> 2N\<close>) whose product \<open>p * N\<close> exceeds 64 bits, with a hash stream whose
  first eight bytes encode \<open>2^41 - 1\<close>.
\<close>

definition wrap_shake :: xof where
  "wrap_shake msg j = (if j < 5 then 255 else if j = 5 then 1 else 0)"

definition wrap_client :: client where
  "wrap_client =
     \<lparr>self_n = 1, self_N = 2 ^ 40, self_p = 2 ^ 40, self_key_file = ''secret_key.json'',
      self_s = [1]\<rparr>"

text \<open>
  Parameters whose inner product can exceed 64 bits (\<open>n * (2N - 1) \<ge> 2^64\<close>), with
  a hash stream of \<open>0xFF\<close> bytes.
\<close>

definition full_shake :: xof where
  "full_shake msg j = 255"

definition wide_client :: client where
  "wide_client =
     \<lparr>self_n = 3, self_N = 2 ^ 62, self_p = 2, self_key_file = ''secret_key.json'',
      self_s = [1, 1, 1]\<rparr>"

section \<open>Byte encodings and the domain hash\<close>


lemma le_bytes_eq:
  "le_bytes k v = map (\<lambda>j. word_of_int (v div 256 ^ j mod 256)) [0..<k]"
proof (induction k arbitrary: v)
  case 0
  show ?case by simp
next
  case (Suc k)
  have shift: "v div 256 div 256 ^ j = v div 256 ^ Suc j" for j
    by (simp add: zdiv_zmult2_eq)
  have "map (\<lambda>j. word_of_int (v div 256 ^ j mod 256) :: u8) [0..<Suc k]
        = word_of_int (v mod 256) # map (\<lambda>j. word_of_int (v div 256 ^ Suc j mod 256)) [0..<k]"
    by (simp add: upt_conv_Cons map_Suc_upt [symmetric] del: upt_Suc)
  then show ?case
    using Suc.IH [of "v div 256"] by (simp add: shift del: upt_Suc)
qed

lemma from_bytes_little_sum:
  "from_bytes_little bs = (\<Sum>k<length bs. uint (bs ! k) * 256 ^ k)"
proof (induction bs)
  case Nil
  show ?case by simp
next
  case (Cons b bs)
  show ?case
    by (simp add: Cons.IH sum.lessThan_Suc_shift sum_distrib_left mult_ac del: sum.lessThan_Suc)
qed

lemma from_bytes_little_nonneg: "0 \<le> from_bytes_little bs"
  by (induction bs) simp_all

lemma from_bytes_little_less: "from_bytes_little bs < 256 ^ length bs"
proof (induction bs)
  case Nil
  show ?case by simp
next
  case (Cons b bs)
  have "uint b < 256" using uint_bounded [of b] by simp
  with Cons show ?case by simp
qed

lemma slice_digest:
  assumes "i < n"
  shows "py_slice (shake_digest shake h (n * 8)) (i * 8) ((i + 1) * 8) = map (shake h) [8 * i..<8 * i + 8]"
proof -
  have "(i + 1) * 8 \<le> n * 8" using assms by simp
  then show ?thesis
    by (simp add: py_slice_def shake_digest_def drop_map take_map take_upt mult.commute)
qed

lemma to_u64_Inr: "0 \<le> v \<Longrightarrow> v < 2 ^ 64 \<Longrightarrow> to_u64 v = Inr (word_of_int v)"
  by (simp add: to_u64_def)

lemma uint_word_of_int_u64: "0 \<le> v \<Longrightarrow> v < 2 ^ 64 \<Longrightarrow> uint (word_of_int v :: u64) = v"
  by (simp add: uint_word_of_int take_bit_int_eq_self)

lemma py_slice_length: "length (py_slice xs lo hi) \<le> hi - lo"
  by (simp add: py_slice_def)

lemma slot_value_bounds:
  assumes "0 < N"
  shows "0 \<le> slot_value N digest i" "slot_value N digest i < 2 * N" "slot_value N digest i < 2 ^ 64"
proof -
  let ?v = "from_bytes_little (py_slice digest (i * 8) ((i + 1) * 8))"
  have len: "length (py_slice digest (i * 8) ((i + 1) * 8)) \<le> 8"
    using py_slice_length [of digest "i * 8" "(i + 1) * 8"] by simp
  have "?v < 256 ^ length (py_slice digest (i * 8) ((i + 1) * 8))"
    by (rule from_bytes_little_less)
  also have "\<dots> \<le> (256 :: int) ^ 8"
    using len by (intro power_increasing) simp_all
  finally have v: "?v < 2 ^ 64" by simp
  have v0: "0 \<le> ?v" by (rule from_bytes_little_nonneg)
  show "0 \<le> slot_value N digest i" using assms by (simp add: slot_value_def)
  show "slot_value N digest i < 2 * N" using assms by (simp add: slot_value_def)
  have "?v mod (2 * N) \<le> ?v" using v0 assms by (intro zmod_le_nonneg_dividend) simp
  with v show "slot_value N digest i < 2 ^ 64" by (simp add: slot_value_def)
qed

lemma hash_to_vector_loop_fold:
  assumes "0 < N" "\<forall>i\<in>set is. i < length a"
  shows "hash_to_vector_loop N digest is a
         = Inr (fold (\<lambda>i a. a[i := word_of_int (slot_value N digest i)]) is a)"
  using assms(2)
proof (induction "is" arbitrary: a)
  case Nil
  show ?case by simp
next
  case (Cons i "is")
  have conv: "to_u64 (slot_value N digest i) = Inr (word_of_int (slot_value N digest i))"
    using slot_value_bounds [OF assms(1), of digest i] by (simp add: to_u64_Inr)
  have "\<forall>j\<in>set is. j < length (a[i := word_of_int (slot_value N digest i)])"
    using Cons.prems by simp
  from Cons.IH [OF this] show ?case
    using assms(1) Cons.prems conv by (simp add: slot_value_def Let_def)
qed

lemma fold_update_upt:
  "k \<le> length a \<Longrightarrow> fold (\<lambda>i a. a[i := f i]) [0..<k] a = map f [0..<k] @ drop k a"
proof (induction k)
  case 0
  show ?case by simp
next
  case (Suc k)
  then have k: "k < length a" by simp
  have "(map f [0..<k] @ drop k a)[k := f k] = map f [0..<k] @ (drop k a)[0 := f k]"
    by (simp add: list_update_append)
  also have "(drop k a)[0 := f k] = f k # drop (Suc k) a"
    using k by (simp add: Cons_nth_drop_Suc [symmetric])
  finally show ?case using Suc by simp
qed

lemma hash_to_vector_loop_range:
  assumes "0 < N"
  shows "hash_to_vector_loop N digest [0..<n] (replicate n 0)
         = Inr (map (\<lambda>i. word_of_int (slot_value N digest i)) [0..<n])"
proof -
  have "hash_to_vector_loop N digest [0..<n] (replicate n 0)
        = Inr (fold (\<lambda>i a. a[i := word_of_int (slot_value N digest i)]) [0..<n] (replicate n 0))"
    by (rule hash_to_vector_loop_fold [OF assms]) simp
  then show ?thesis by (simp add: fold_update_upt)
qed

lemma to_bytes_little_Inr:
  "0 \<le> v \<Longrightarrow> v < 2 ^ 64 \<Longrightarrow> to_bytes_little v 8 = Inr (le_bytes 8 v)"
  by (simp add: to_bytes_little_def)

lemma hash_to_vector_Inr:
  assumes "0 < self_N c" "0 \<le> index" "index < 2 ^ 64"
  shows "hash_to_vector shake c x index
         = Inr (map (\<lambda>i. word_of_int (slot_value (self_N c)
                  (shake_digest shake (x @ le_bytes 8 index) (self_n c * 8)) i)) [0..<self_n c])"
  using assms
  by (simp add: hash_to_vector_def to_bytes_little_Inr Let_def shake_update_def shake_new_def
      hash_to_vector_loop_range)

lemma slot_value_spec:
  assumes "i < n"
  shows "slot_value N (shake_digest shake h (n * 8)) i
         = le_decode (map (shake h) [8 * i..<8 * i + 8]) mod (2 * N)"
  unfolding slot_value_def slice_digest [OF assms] from_bytes_little_sum le_decode_def ..

lemma hash_to_vector_range:
  assumes "0 < self_N c" "0 \<le> index" "index < 2 ^ 64"
  shows "\<exists>a. hash_to_vector shake c x index = Inr a \<and> length a = self_n c
           \<and> (\<forall>v\<in>set a. uint v < 2 * self_N c)"
proof -
  let ?d = "shake_digest shake (x @ le_bytes 8 index) (self_n c * 8)"
  have "uint (word_of_int (slot_value (self_N c) ?d i) :: u64) < 2 * self_N c" for i
    using slot_value_bounds [OF assms(1), of ?d i] by (simp add: uint_word_of_int_u64)
  then show ?thesis
    by (auto simp: hash_to_vector_Inr [OF assms])
qed

text \<open>
  Claim C3. For a positive ring dimension, every byte string \<open>x\<close> and every slot
  index in \<open>[0, 2^64)\<close>, \<^verbatim>\<open>hash_to_vector\<close> returns a vector, and that vector is the
  one the specification describes: the input is absorbed first and the 8-byte
  little-endian index second, \<open>n * 8\<close> output bytes are read as \<open>n\<close> consecutive
  8-byte little-endian unsigned integers, and each is reduced modulo \<open>2N\<close>. The
  vector has exactly \<open>n\<close> elements, each in \<open>[0, 2N)\<close>.
\<close>

theorem hash_to_vector_refines_spec:
  assumes "0 < self_N c" "0 \<le> index" "index < 2 ^ 64"
  shows "\<exists>a. hash_to_vector shake c x index = Inr a
           \<and> map uint a = hash_to_vector_spec shake (self_n c) (self_N c) x index
           \<and> length a = self_n c
           \<and> (\<forall>v\<in>set a. 0 \<le> uint v \<and> uint v < 2 * self_N c)"
proof -
  let ?d = "shake_digest shake (x @ le_bytes 8 index) (self_n c * 8)"
  let ?a = "map (\<lambda>i. word_of_int (slot_value (self_N c) ?d i) :: u64) [0..<self_n c]"
  have run: "hash_to_vector shake c x index = Inr ?a"
    by (rule hash_to_vector_Inr [OF assms])
  have val: "uint (word_of_int (slot_value (self_N c) ?d i) :: u64) = slot_value (self_N c) ?d i" for i
    using slot_value_bounds [OF assms(1), of ?d i] by (simp add: uint_word_of_int_u64)
  have "map uint ?a = map (\<lambda>i. slot_value (self_N c) ?d i) [0..<self_n c]"
    by (simp add: val comp_def)
  also have "\<dots> = hash_to_vector_spec shake (self_n c) (self_N c) x index"
    by (simp add: hash_to_vector_spec_def Let_def slot_value_spec le_bytes_eq le_encode8_def
        del: upt_Suc)
  finally have spec: "map uint ?a = hash_to_vector_spec shake (self_n c) (self_N c) x index" .
  have rng: "\<forall>v\<in>set ?a. 0 \<le> uint v \<and> uint v < 2 * self_N c"
    using slot_value_bounds [OF assms(1)] by (auto simp: val)
  show ?thesis using run spec rng by simp
qed

theorem hash_to_vector_refines_spec_witness:
  "0 < self_N demo_client \<and> (0 :: int) \<le> 5 \<and> (5 :: int) < 2 ^ 64
   \<and> (\<exists>a. hash_to_vector demo_shake demo_client [1, 2, 3] 5 = Inr a
           \<and> map uint a = hash_to_vector_spec demo_shake 445 2048 [1, 2, 3] 5
           \<and> length a = 445
           \<and> list_all (\<lambda>v. 0 \<le> uint v \<and> uint v < 4096) a)"
proof -
  have N: "0 < self_N demo_client" by (simp add: demo_client_def)
  have i: "(0 :: int) \<le> 5" "(5 :: int) < 2 ^ 64" by simp_all
  from hash_to_vector_refines_spec [OF N i, of demo_shake "[1, 2, 3]"]
  show ?thesis by (simp add: demo_client_def list_all_iff)
qed

section \<open>The evaluator on in-range parameters\<close>

lemma np_dot_Inr: "length a = length b \<Longrightarrow> np_dot a b = Inr (dot_u64 a b)"
  by (simp add: np_dot_def dot_u64_def)

lemma evaluate_body_Inr:
  assumes "0 \<le> self_N c" "2 * self_N c < 2 ^ 64" "0 \<le> self_p c" "self_p c < 2 ^ 64"
    and "length a = length (self_s c)"
  shows "evaluate_body c a = Inr (lwr_round (self_N c) (self_p c) (dot_u64 a (self_s c)))"
proof -
  have N: "to_u64 (self_N c) = Inr (word_of_int (self_N c))"
    using assms by (simp add: to_u64_Inr)
  have N2: "to_u64 (2 * self_N c) = Inr (word_of_int (2 * self_N c))"
    using assms by (simp add: to_u64_Inr)
  have P: "to_u64 (self_p c) = Inr (word_of_int (self_p c))"
    using assms by (simp add: to_u64_Inr)
  show ?thesis
    unfolding evaluate_body_def np_dot_Inr [OF assms(5)] N N2 P lwr_round_def
    by (simp add: Let_def)
qed

lemma evaluate_multiple_slot_eq:
  "evaluate_multiple_slot shake c x i =
     (case hash_to_vector shake c x (int i) of Inl e \<Rightarrow> Inl e | Inr a \<Rightarrow> evaluate_body c a)"
  unfolding evaluate_multiple_slot_def evaluate_body_def ..

lemma lwr_round_less:
  assumes "0 < p" "p < 2 ^ 64"
  shows "uint (lwr_round N p ip) < p"
proof -
  have up: "uint (word_of_int p :: u64) = p"
    using assms by (simp add: uint_word_of_int_u64)
  then have nz: "(word_of_int p :: u64) \<noteq> 0"
    using assms by (metis less_irrefl uint_0_eq)
  have "uint (np_remainder w (word_of_int p)) < p" for w :: u64
    using nz up assms by (simp add: np_remainder_def uint_mod)
  then show ?thesis
    by (simp add: lwr_round_def Let_def)
qed

lemma fold_dot_word:
  "fold (\<lambda>(x, y) acc. acc + x * y) zs acc
   = acc + word_of_int (\<Sum>(x, y)\<leftarrow>zs. uint x * uint y)"
  by (induction zs arbitrary: acc) (auto simp: algebra_simps)

lemma dot_u64_word:
  "dot_u64 a b = word_of_int (\<Sum>(x, y)\<leftarrow>zip a b. uint x * uint y)"
  by (simp add: dot_u64_def fold_dot_word)

lemma zip_sum_index:
  assumes "length a = length b"
  shows "(\<Sum>(x, y)\<leftarrow>zip a b. f x y) = (\<Sum>i<length a. f (a ! i) (b ! i))"
proof -
  have "(\<Sum>(x, y)\<leftarrow>zip a b. f x y)
        = (\<Sum>i = 0..<length (zip a b). map (\<lambda>(x, y). f x y) (zip a b) ! i)"
    by (simp add: sum_list_sum_nth)
  also have "\<dots> = (\<Sum>i = 0..<length a. f (a ! i) (b ! i))"
    using assms by (intro sum.cong) simp_all
  finally show ?thesis by (simp add: atLeast0LessThan)
qed

lemma dot_sum_bounds:
  assumes "length a = length b"
    and "\<forall>x\<in>set a. uint x \<le> M"
    and "\<forall>y\<in>set b. y = 0 \<or> y = 1"
    and "0 \<le> M"
  shows "0 \<le> (\<Sum>(x, y)\<leftarrow>zip a b. uint x * uint y)
       \<and> (\<Sum>(x, y)\<leftarrow>zip a b. uint x * uint y) \<le> int (length a) * M"
  using assms
proof (induction a b rule: list_induct2)
  case Nil
  show ?case by simp
next
  case (Cons x xs y ys)
  have y: "uint y = 0 \<or> uint y = 1" using Cons.prems by auto
  have x: "0 \<le> uint x" "uint x \<le> M" using Cons.prems by auto
  have "0 \<le> uint x * uint y \<and> uint x * uint y \<le> M"
    using x y Cons.prems(3) by auto
  moreover have "0 \<le> (\<Sum>(x, y)\<leftarrow>zip xs ys. uint x * uint y)
       \<and> (\<Sum>(x, y)\<leftarrow>zip xs ys. uint x * uint y) \<le> int (length xs) * M"
    using Cons by simp
  ultimately show ?case by (simp add: algebra_simps)
qed

lemma dot_u64_exact:
  assumes "length a = length b"
    and "\<forall>x\<in>set a. uint x < 2 * N"
    and "\<forall>y\<in>set b. y = 0 \<or> y = 1"
    and "int (length a) * (2 * N - 1) < 2 ^ 64" "0 < N"
  shows "uint (dot_u64 a b) = (\<Sum>i<length a. uint (a ! i) * uint (b ! i))"
proof -
  let ?S = "\<Sum>(x, y)\<leftarrow>zip a b. uint x * uint y"
  have "\<forall>x\<in>set a. uint x \<le> 2 * N - 1" using assms(2) by auto
  from dot_sum_bounds [OF assms(1) this assms(3)] assms(5)
  have "0 \<le> ?S" "?S \<le> int (length a) * (2 * N - 1)" by simp_all
  with assms(4) have "uint (word_of_int ?S :: u64) = ?S"
    by (intro uint_word_of_int_u64) simp_all
  then show ?thesis
    by (simp add: dot_u64_word zip_sum_index [OF assms(1)])
qed

lemma int_div_less: "0 < N \<Longrightarrow> (a::int) < p * N \<Longrightarrow> a div N < p"
proof (rule ccontr)
  assume N: "0 < N" and a: "a < p * N" and "\<not> a div N < p"
  then have "p \<le> a div N" by simp
  then have "p * N \<le> (a div N) * N" using N by (simp add: mult_right_mono)
  also have "\<dots> \<le> a"
    using pos_mod_sign [OF N, of a] div_mult_mod_eq [of a N] by linarith
  finally show False using a by simp
qed

lemma lwr_round_exact:
  assumes "0 < N" "2 * N < 2 ^ 64" "0 < p" "p * N < 2 ^ 64"
  shows "uint (lwr_round N p ip) =
     (let ip_mod_2N = uint ip mod (2 * N);
          ip_mod_N = uint ip mod N;
          rounded = (p * ip_mod_N) div N
      in if N \<le> ip_mod_2N then (p - rounded) mod p else rounded mod p)"
proof -
  have pN: "p \<le> p * N" using assms(1,3) by (simp add: mult_le_cancel_left1)
  then have p64: "p < 2 ^ 64" using assms(4) by linarith
  have N64: "N < 2 ^ 64" using assms(1,2) by linarith
  have uN: "uint (word_of_int N :: u64) = N"
    using assms N64 by (simp add: uint_word_of_int_u64)
  have u2N: "uint (word_of_int (2 * N) :: u64) = 2 * N"
    by (rule uint_word_of_int_u64) (use assms in simp_all)
  have uP: "uint (word_of_int p :: u64) = p"
    using assms p64 by (simp add: uint_word_of_int_u64)
  have nzN: "(word_of_int N :: u64) \<noteq> 0" using uN assms(1) by (metis less_irrefl uint_0_eq)
  have nz2N: "(word_of_int (2 * N) :: u64) \<noteq> 0" using u2N assms(1) by (metis less_irrefl mult_pos_pos uint_0_eq zero_less_numeral)
  have nzP: "(word_of_int p :: u64) \<noteq> 0" using uP assms(3) by (metis less_irrefl uint_0_eq)
  define r where "r = uint ip mod N"
  have r: "0 \<le> r" "r < N" using assms(1) by (simp_all add: r_def)
  have ur: "uint (np_remainder ip (word_of_int N)) = r"
    using nzN uN by (simp add: np_remainder_def uint_mod r_def)
  have u2: "uint (np_remainder ip (word_of_int (2 * N))) = uint ip mod (2 * N)"
    using nz2N u2N by (simp add: np_remainder_def uint_mod)
  have pr: "0 \<le> p * r" "p * r < 2 ^ 64"
  proof -
    show "0 \<le> p * r" using assms(3) r by simp
    have "p * r \<le> p * N" using assms(3) r by (simp add: mult_left_mono)
    then show "p * r < 2 ^ 64" using assms(4) by linarith
  qed
  have prod: "word_of_int p * np_remainder ip (word_of_int N) = (word_of_int (p * r) :: u64)"
    using ur by (metis of_int_mult word_of_int_uint)
  have uprod: "uint (word_of_int p * np_remainder ip (word_of_int N) :: u64) = p * r"
    unfolding prod by (rule uint_word_of_int_u64) (use pr in simp_all)
  define rounded where "rounded = p * r div N"
  have urounded: "uint (np_floor_divide (word_of_int p * np_remainder ip (word_of_int N)) (word_of_int N) :: u64) = rounded"
    using nzN uN uprod by (simp add: np_floor_divide_def uint_div rounded_def)
  have rb: "0 \<le> rounded" "rounded < p"
  proof -
    show "0 \<le> rounded" using pr assms(1) by (simp add: rounded_def pos_imp_zdiv_nonneg_iff)
    have "p * r < p * N" using assms(3) r by simp
    then show "rounded < p" unfolding rounded_def by (rule int_div_less [OF assms(1)])
  qed
  let ?rw = "np_floor_divide (word_of_int p * np_remainder ip (word_of_int N)) (word_of_int N) :: u64"
  have usub: "uint (word_of_int p - ?rw) = p - rounded"
    using urounded uP rb by (simp add: uint_sub_if' )
  have m1: "uint (np_remainder (word_of_int p - ?rw) (word_of_int p)) = (p - rounded) mod p"
    using nzP uP usub by (simp add: np_remainder_def uint_mod)
  have m2: "uint (np_remainder ?rw (word_of_int p)) = rounded mod p"
    using nzP uP urounded by (simp add: np_remainder_def uint_mod)
  show ?thesis
    unfolding lwr_round_def Let_def u2 r_def [symmetric] rounded_def [symmetric]
    using m1 m2 by (simp add: r_def rounded_def)
qed

section \<open>The keystream\<close>

lemma hash_to_vector_length:
  assumes "0 < self_N c" "0 \<le> index" "index < 2 ^ 64"
  shows "\<exists>a. hash_to_vector shake c x index = Inr a \<and> length a = self_n c"
  by (simp add: hash_to_vector_Inr [OF assms])

lemma evaluate_body_range:
  assumes "0 < self_N c" "2 * self_N c < 2 ^ 64" "0 < self_p c" "self_p c < 2 ^ 64"
    and "length a = length (self_s c)"
  shows "\<exists>w. evaluate_body c a = Inr w \<and> 0 \<le> uint w \<and> uint w < self_p c"
proof -
  have "evaluate_body c a = Inr (lwr_round (self_N c) (self_p c) (dot_u64 a (self_s c)))"
    using assms by (intro evaluate_body_Inr) simp_all
  then show ?thesis
    using lwr_round_less [OF assms(3,4)] by simp
qed

lemma evaluate_body_total:
  assumes "0 < self_N c" "2 * self_N c < 2 ^ 64" "0 \<le> self_p c" "self_p c < 2 ^ 64"
    and "length a = length (self_s c)"
  shows "\<exists>w. evaluate_body c a = Inr w"
  using evaluate_body_Inr [of c a] assms by simp

lemma evaluate_eq_slot: "evaluate shake c x = evaluate_multiple_slot shake c x 0"
  by (simp add: evaluate_def evaluate_multiple_slot_eq)

lemma evaluate_multiple_slot_total:
  assumes "0 < self_N c" "2 * self_N c < 2 ^ 64" "0 \<le> self_p c" "self_p c < 2 ^ 64"
    and "length (self_s c) = self_n c" and "int i < 2 ^ 64"
  shows "\<exists>w. evaluate_multiple_slot shake c x i = Inr w"
proof -
  obtain a where a: "hash_to_vector shake c x (int i) = Inr a" "length a = self_n c"
    using hash_to_vector_length [OF assms(1) _ assms(6), of shake x] by auto
  then have "length a = length (self_s c)" using assms(5) by simp
  from evaluate_body_total [OF assms(1-4) this] a show ?thesis
    by (simp add: evaluate_multiple_slot_eq)
qed

lemma evaluate_multiple_slot_range:
  assumes "0 < self_N c" "2 * self_N c < 2 ^ 64" "0 < self_p c" "self_p c < 2 ^ 64"
    and "length (self_s c) = self_n c" and "int i < 2 ^ 64"
  shows "\<exists>w. evaluate_multiple_slot shake c x i = Inr w \<and> 0 \<le> uint w \<and> uint w < self_p c"
proof -
  obtain a where a: "hash_to_vector shake c x (int i) = Inr a" "length a = self_n c"
    using hash_to_vector_length [OF assms(1) _ assms(6), of shake x] by auto
  then have "length a = length (self_s c)" using assms(5) by simp
  from evaluate_body_range [OF assms(1-4) this] a show ?thesis
    by (simp add: evaluate_multiple_slot_eq)
qed

lemma evaluate_multiple_loop_sound:
  "evaluate_multiple_loop shake c x is outs = Inr r \<Longrightarrow>
   \<exists>ys. r = outs @ ys \<and> length ys = length is
       \<and> (\<forall>k<length is. evaluate_multiple_slot shake c x (is ! k) = Inr (ys ! k))"
proof (induction "is" arbitrary: outs)
  case Nil
  then show ?case by simp
next
  case (Cons i "is")
  from Cons.prems obtain w where w: "evaluate_multiple_slot shake c x i = Inr w"
    and rest: "evaluate_multiple_loop shake c x is (outs @ [w]) = Inr r"
    by (auto split: sum.splits)
  from Cons.IH [OF rest] obtain ys where ys: "r = (outs @ [w]) @ ys" "length ys = length is"
    "\<forall>k<length is. evaluate_multiple_slot shake c x (is ! k) = Inr (ys ! k)"
    by blast
  have "\<forall>k<length (i # is). evaluate_multiple_slot shake c x ((i # is) ! k) = Inr ((w # ys) ! k)"
  proof (intro allI impI)
    fix k assume "k < length (i # is)"
    then show "evaluate_multiple_slot shake c x ((i # is) ! k) = Inr ((w # ys) ! k)"
      using w ys(3) by (cases k) simp_all
  qed
  with ys(1,2) show ?case
    by (intro exI [of _ "w # ys"]) simp
qed

lemma evaluate_multiple_loop_total:
  "\<forall>i\<in>set is. \<exists>w. evaluate_multiple_slot shake c x i = Inr w \<Longrightarrow>
   \<exists>r. evaluate_multiple_loop shake c x is outs = Inr r"
proof (induction "is" arbitrary: outs)
  case Nil
  show ?case by simp
next
  case (Cons i "is")
  from Cons.prems obtain w where w: "evaluate_multiple_slot shake c x i = Inr w" by auto
  from Cons.IH [of "outs @ [w]"] Cons.prems w show ?case by simp
qed

lemma evaluate_multiple_sound:
  assumes "evaluate_multiple shake c x count = Inr outs"
  shows "length outs = nat count
       \<and> (\<forall>i<nat count. evaluate_multiple_slot shake c x i = Inr (outs ! i))"
proof -
  from evaluate_multiple_loop_sound [OF assms [unfolded evaluate_multiple_def]]
  obtain ys where "outs = [] @ ys" "length ys = length [0..<nat count]"
    "\<forall>k<length [0..<nat count]. evaluate_multiple_slot shake c x ([0..<nat count] ! k) = Inr (ys ! k)"
    by blast
  then show ?thesis by simp
qed

lemma evaluate_multiple_total:
  assumes "0 < self_N c" "2 * self_N c < 2 ^ 64" "0 \<le> self_p c" "self_p c < 2 ^ 64"
    and "length (self_s c) = self_n c" and "count \<le> 2 ^ 64"
  shows "\<exists>outs. evaluate_multiple shake c x count = Inr outs"
  unfolding evaluate_multiple_def
proof (rule evaluate_multiple_loop_total, rule ballI)
  fix i assume "i \<in> set [0..<nat count]"
  then have "int i < 2 ^ 64" using assms(6) by auto
  from evaluate_multiple_slot_total [OF assms(1-5) this]
  show "\<exists>w. evaluate_multiple_slot shake c x i = Inr w" .
qed

lemma evaluate_multiple_range:
  assumes "0 < self_N c" "2 * self_N c < 2 ^ 64" "0 < self_p c" "self_p c < 2 ^ 64"
    and "length (self_s c) = self_n c" and "count \<le> 2 ^ 64"
  shows "\<exists>outs. evaluate_multiple shake c x count = Inr outs \<and> length outs = nat count
           \<and> (\<forall>w\<in>set outs. 0 \<le> uint w \<and> uint w < self_p c)"
proof -
  have p0: "0 \<le> self_p c" using assms(3) by simp
  obtain outs where outs: "evaluate_multiple shake c x count = Inr outs"
    using evaluate_multiple_total [OF assms(1,2) p0 assms(4-6)] by blast
  note snd = evaluate_multiple_sound [OF outs]
  have "0 \<le> uint w \<and> uint w < self_p c" if "w \<in> set outs" for w
  proof -
    from that obtain i where i: "i < length outs" "outs ! i = w"
      by (auto simp: in_set_conv_nth)
    then have "int i < 2 ^ 64" using snd assms(6) by auto
    from evaluate_multiple_slot_range [OF assms(1-5) this, of shake x] snd i
    show ?thesis by auto
  qed
  with outs snd show ?thesis by blast
qed

text \<open>
  Claim C4. On in-range parameters (\<open>0 < N\<close>, \<open>2N < 2^64\<close>, \<open>0 < p < 2^64\<close>, a key
  of length \<open>n\<close>) the evaluator returns, and what it returns lies in \<open>[0, p)\<close>:
  for every hash vector (hence for any value of the inner product), for
  \<^verbatim>\<open>evaluate\<close> on every input, and at every position of \<^verbatim>\<open>evaluate_multiple\<close>. The
  final remainder is taken in both branches, and it sends the boundary value
  \<open>p\<close> to \<open>0\<close>.
\<close>

theorem prf_output_in_range:
  assumes "0 < self_N c" "2 * self_N c < 2 ^ 64" "0 < self_p c" "self_p c < 2 ^ 64"
    and "length (self_s c) = self_n c"
  shows "(\<forall>a. length a = self_n c \<longrightarrow>
            (\<exists>w. evaluate_body c a = Inr w \<and> 0 \<le> uint w \<and> uint w < self_p c))
       \<and> (\<exists>w. evaluate shake c x = Inr w \<and> 0 \<le> uint w \<and> uint w < self_p c)
       \<and> (\<forall>count. count \<le> 2 ^ 64 \<longrightarrow>
            (\<exists>outs. evaluate_multiple shake c x count = Inr outs \<and> length outs = nat count
               \<and> (\<forall>w\<in>set outs. 0 \<le> uint w \<and> uint w < self_p c)))
       \<and> np_remainder (word_of_int (self_p c)) (word_of_int (self_p c)) = 0"
proof (intro conjI allI impI)
  fix a :: "u64 list" assume "length a = self_n c"
  then have "length a = length (self_s c)" using assms(5) by simp
  from evaluate_body_range [OF assms(1-4) this]
  show "\<exists>w. evaluate_body c a = Inr w \<and> 0 \<le> uint w \<and> uint w < self_p c" .
next
  have "int 0 < 2 ^ 64" by simp
  from evaluate_multiple_slot_range [OF assms this, of shake x]
  show "\<exists>w. evaluate shake c x = Inr w \<and> 0 \<le> uint w \<and> uint w < self_p c"
    by (simp add: evaluate_eq_slot)
next
  fix count :: int assume "count \<le> 2 ^ 64"
  from evaluate_multiple_range [OF assms this]
  show "\<exists>outs. evaluate_multiple shake c x count = Inr outs \<and> length outs = nat count
           \<and> (\<forall>w\<in>set outs. 0 \<le> uint w \<and> uint w < self_p c)" .
next
  show "np_remainder (word_of_int (self_p c)) (word_of_int (self_p c)) = 0"
    by (simp add: np_remainder_def)
qed

theorem prf_output_in_range_witness:
  "0 < self_N demo_client \<and> 2 * self_N demo_client < 2 ^ 64
   \<and> 0 < self_p demo_client \<and> self_p demo_client < 2 ^ 64
   \<and> length (self_s demo_client) = self_n demo_client
   \<and> (\<exists>w. evaluate demo_shake demo_client [1, 2, 3] = Inr w \<and> 0 \<le> uint w \<and> uint w < 32)
   \<and> (\<exists>outs. evaluate_multiple demo_shake demo_client [1, 2, 3] 10 = Inr outs
          \<and> length outs = 10 \<and> list_all (\<lambda>w. 0 \<le> uint w \<and> uint w < 32) outs)"
proof -
  have h: "0 < self_N demo_client" "2 * self_N demo_client < 2 ^ 64"
    "0 < self_p demo_client" "self_p demo_client < 2 ^ 64"
    "length (self_s demo_client) = self_n demo_client"
    by (simp_all add: demo_client_def)
  note T = prf_output_in_range [OF h, of demo_shake "[1, 2, 3]"]
  from T have e: "\<exists>w. evaluate demo_shake demo_client [1, 2, 3] = Inr w
      \<and> 0 \<le> uint w \<and> uint w < self_p demo_client"
    by blast
  from T have "(10 :: int) \<le> 2 ^ 64 \<longrightarrow>
      (\<exists>outs. evaluate_multiple demo_shake demo_client [1, 2, 3] 10 = Inr outs
         \<and> length outs = nat 10 \<and> (\<forall>w\<in>set outs. 0 \<le> uint w \<and> uint w < self_p demo_client))"
    by blast
  then have m: "\<exists>outs. evaluate_multiple demo_shake demo_client [1, 2, 3] 10 = Inr outs
         \<and> length outs = 10 \<and> list_all (\<lambda>w. 0 \<le> uint w \<and> uint w < 32) outs"
    by (simp add: demo_client_def list_all_iff)
  from e have e': "\<exists>w. evaluate demo_shake demo_client [1, 2, 3] = Inr w \<and> 0 \<le> uint w \<and> uint w < 32"
    by (simp add: demo_client_def)
  show ?thesis using h e' m by simp
qed

text \<open>
  Claim C5. On in-range parameters and for every count up to \<open>2^64\<close>,
  \<^verbatim>\<open>evaluate_multiple\<close> returns a sequence of exactly \<open>count\<close> outputs; position \<open>i\<close>
  is the single-slot evaluation (the pipeline of \<^verbatim>\<open>evaluate\<close>) of the hash vector
  of slot \<open>i\<close>, and position \<open>0\<close> is \<^verbatim>\<open>evaluate(x)\<close> whenever \<open>count \<ge> 1\<close>.
\<close>

theorem evaluate_multiple_slots:
  assumes "0 < self_N c" "2 * self_N c < 2 ^ 64" "0 \<le> self_p c" "self_p c < 2 ^ 64"
    and "length (self_s c) = self_n c" and "count \<le> 2 ^ 64"
  shows "\<exists>outs. evaluate_multiple shake c x count = Inr outs
           \<and> length outs = nat count
           \<and> (\<forall>i<nat count. \<exists>a. hash_to_vector shake c x (int i) = Inr a
                  \<and> evaluate_body c a = Inr (outs ! i))
           \<and> (1 \<le> count \<longrightarrow> evaluate shake c x = Inr (outs ! 0))"
proof -
  obtain outs where outs: "evaluate_multiple shake c x count = Inr outs"
    using evaluate_multiple_total [OF assms] by blast
  note snd = evaluate_multiple_sound [OF outs]
  have slots: "\<exists>a. hash_to_vector shake c x (int i) = Inr a \<and> evaluate_body c a = Inr (outs ! i)"
    if "i < nat count" for i
  proof -
    have "evaluate_multiple_slot shake c x i = Inr (outs ! i)" using snd that by simp
    then show ?thesis
      by (auto simp: evaluate_multiple_slot_eq split: sum.splits)
  qed
  have first: "evaluate shake c x = Inr (outs ! 0)" if "1 \<le> count"
    using snd that by (simp add: evaluate_eq_slot)
  show ?thesis using outs snd slots first by blast
qed

theorem evaluate_multiple_slots_witness:
  "0 < self_N demo_client \<and> 2 * self_N demo_client < 2 ^ 64
   \<and> 0 \<le> self_p demo_client \<and> self_p demo_client < 2 ^ 64
   \<and> length (self_s demo_client) = self_n demo_client \<and> (3 :: int) \<le> 2 ^ 64
   \<and> (\<exists>outs. evaluate_multiple demo_shake demo_client [1, 2, 3] 3 = Inr outs
          \<and> length outs = 3
          \<and> (\<exists>a. hash_to_vector demo_shake demo_client [1, 2, 3] 2 = Inr a
                \<and> evaluate_body demo_client a = Inr (outs ! 2))
          \<and> evaluate demo_shake demo_client [1, 2, 3] = Inr (outs ! 0))"
proof -
  have h: "0 < self_N demo_client" "2 * self_N demo_client < 2 ^ 64"
    "0 \<le> self_p demo_client" "self_p demo_client < 2 ^ 64"
    "length (self_s demo_client) = self_n demo_client" "(3 :: int) \<le> 2 ^ 64"
    by (simp_all add: demo_client_def)
  from evaluate_multiple_slots [OF h, of demo_shake "[1, 2, 3]"]
  obtain outs where outs: "evaluate_multiple demo_shake demo_client [1, 2, 3] 3 = Inr outs"
    "length outs = nat 3"
    "\<forall>i<nat 3. \<exists>a. hash_to_vector demo_shake demo_client [1, 2, 3] (int i) = Inr a
        \<and> evaluate_body demo_client a = Inr (outs ! i)"
    "(1 :: int) \<le> 3 \<longrightarrow> evaluate demo_shake demo_client [1, 2, 3] = Inr (outs ! 0)"
    by blast
  from outs(3) [rule_format, of 2]
  have "\<exists>a. hash_to_vector demo_shake demo_client [1, 2, 3] (int 2) = Inr a
        \<and> evaluate_body demo_client a = Inr (outs ! 2)"
    by simp
  then have s2: "\<exists>a. hash_to_vector demo_shake demo_client [1, 2, 3] 2 = Inr a
        \<and> evaluate_body demo_client a = Inr (outs ! 2)"
    by simp
  show ?thesis using h outs(1,2,4) s2 by auto
qed

section \<open>The evaluator against the specification\<close>

lemma evaluate_at_spec_int:
  assumes "0 < N"
  shows "evaluate_at_spec N p a s =
     (let ip = (\<Sum>i<length a. a ! i * s ! i);
          rounded = (p * (ip mod N)) div N
      in if N \<le> ip mod (2 * N) then (p - rounded) mod p else rounded mod p)"
  unfolding evaluate_at_spec_def floor_divide_of_int_eq Let_def by simp

lemma evaluate_body_refines_spec:
  assumes "0 < self_N c" "2 * self_N c < 2 ^ 64" "0 < self_p c"
    and "self_p c * self_N c < 2 ^ 64"
    and "int (length a) * (2 * self_N c - 1) < 2 ^ 64"
    and "length a = length (self_s c)"
    and "\<forall>v\<in>set a. uint v < 2 * self_N c"
    and "\<forall>b\<in>set (self_s c). b = 0 \<or> b = 1"
  shows "\<exists>w. evaluate_body c a = Inr w
           \<and> uint w = evaluate_at_spec (self_N c) (self_p c) (map uint a) (map uint (self_s c))"
proof -
  have "self_p c \<le> self_p c * self_N c"
    using assms(1,3) by (simp add: mult_le_cancel_left1)
  then have p64: "self_p c < 2 ^ 64" using assms(4) by linarith
  have run: "evaluate_body c a = Inr (lwr_round (self_N c) (self_p c) (dot_u64 a (self_s c)))"
    using assms p64 by (intro evaluate_body_Inr) simp_all
  have ip: "uint (dot_u64 a (self_s c)) = (\<Sum>i<length a. uint (a ! i) * uint (self_s c ! i))"
    by (rule dot_u64_exact [OF assms(6,7,8,5,1)])
  have "(\<Sum>i<length a. uint (a ! i) * uint (self_s c ! i))
        = (\<Sum>i<length (map uint a). map uint a ! i * map uint (self_s c) ! i)"
    using assms(6) by (intro sum.cong) simp_all
  with ip have ip': "uint (dot_u64 a (self_s c))
        = (\<Sum>i<length (map uint a). map uint a ! i * map uint (self_s c) ! i)"
    by simp
  have "uint (lwr_round (self_N c) (self_p c) (dot_u64 a (self_s c)))
        = evaluate_at_spec (self_N c) (self_p c) (map uint a) (map uint (self_s c))"
    unfolding lwr_round_exact [OF assms(1,2,3,4)] evaluate_at_spec_int [OF assms(1)] ip'
    by (simp add: Let_def)
  with run show ?thesis by simp
qed

text \<open>
  Claim C2, as amended. On parameters whose products fit 64 bits (\<open>p * N < 2^64\<close> and
  \<open>n * (2N - 1) < 2^64\<close>) and a binary key of length \<open>n\<close>, \<^verbatim>\<open>evaluate(x)\<close>
  returns, and its value is the one the specification's steps give on the
  hash vector of slot \<open>0\<close>: the inner product with the key, the sign bit
  \<open>msb = 1\<close> iff \<open>ip mod 2N \<ge> N\<close>, the separate remainder \<open>ip mod N\<close>, the floor
  of \<open>p * ip_mod_N / N\<close>, and \<open>(p - rounded) mod p\<close> or \<open>rounded mod p\<close>.
\<close>

theorem evaluate_refines_spec:
  assumes "0 < self_N c" "2 * self_N c < 2 ^ 64" "0 < self_p c"
    and "self_p c * self_N c < 2 ^ 64"
    and "int (self_n c) * (2 * self_N c - 1) < 2 ^ 64"
    and "length (self_s c) = self_n c"
    and "\<forall>b\<in>set (self_s c). b = 0 \<or> b = 1"
  shows "\<exists>a w. hash_to_vector shake c x 0 = Inr a
           \<and> evaluate shake c x = Inr w
           \<and> uint w = evaluate_at_spec (self_N c) (self_p c) (map uint a) (map uint (self_s c))"
proof -
  have "(0 :: int) \<le> 0" "(0 :: int) < 2 ^ 64" by simp_all
  from hash_to_vector_range [OF assms(1) this, of shake x]
  obtain a where a: "hash_to_vector shake c x 0 = Inr a" "length a = self_n c"
    "\<forall>v\<in>set a. uint v < 2 * self_N c"
    by blast
  have len: "length a = length (self_s c)" using a(2) assms(6) by simp
  have size: "int (length a) * (2 * self_N c - 1) < 2 ^ 64" using a(2) assms(5) by simp
  have rng: "\<forall>v\<in>set a. uint v < 2 * self_N c" using a(3) by simp
  from evaluate_body_refines_spec [OF assms(1-4) size len rng assms(7)]
  obtain w where "evaluate_body c a = Inr w"
    "uint w = evaluate_at_spec (self_N c) (self_p c) (map uint a) (map uint (self_s c))"
    by blast
  with a(1) show ?thesis by (simp add: evaluate_def)
qed

theorem evaluate_refines_spec_witness:
  "0 < self_N demo_client \<and> 2 * self_N demo_client < 2 ^ 64 \<and> 0 < self_p demo_client
   \<and> self_p demo_client * self_N demo_client < 2 ^ 64
   \<and> int (self_n demo_client) * (2 * self_N demo_client - 1) < 2 ^ 64
   \<and> length (self_s demo_client) = self_n demo_client
   \<and> list_all (\<lambda>b. b = 0 \<or> b = 1) (self_s demo_client)
   \<and> (\<exists>a w. hash_to_vector demo_shake demo_client [1, 2, 3] 0 = Inr a
          \<and> evaluate demo_shake demo_client [1, 2, 3] = Inr w
          \<and> uint w = evaluate_at_spec 2048 32 (map uint a) (replicate 445 1))"
proof -
  have h: "0 < self_N demo_client" "2 * self_N demo_client < 2 ^ 64" "0 < self_p demo_client"
    "self_p demo_client * self_N demo_client < 2 ^ 64"
    "int (self_n demo_client) * (2 * self_N demo_client - 1) < 2 ^ 64"
    "length (self_s demo_client) = self_n demo_client"
    "\<forall>b\<in>set (self_s demo_client). b = 0 \<or> b = 1"
    by (simp_all add: demo_client_def)
  from evaluate_refines_spec [OF h, of demo_shake "[1, 2, 3]"]
  have "\<exists>a w. hash_to_vector demo_shake demo_client [1, 2, 3] 0 = Inr a
          \<and> evaluate demo_shake demo_client [1, 2, 3] = Inr w
          \<and> uint w = evaluate_at_spec 2048 32 (map uint a) (replicate 445 1)"
    by (simp add: demo_client_def)
  with h show ?thesis by (simp add: list_all_iff)
qed

lemma wrap_hash: "hash_to_vector wrap_shake wrap_client [] 0 = Inr [2 ^ 41 - 1]"
  by (simp add: hash_to_vector_def wrap_client_def to_bytes_little_def shake_update_def
      shake_new_def shake_digest_def Let_def py_slice_def wrap_shake_def to_u64_def
      upt_conv_Cons)

lemma wrap_dot: "np_dot [2 ^ 41 - 1] (self_s wrap_client) = Inr (2 ^ 41 - 1)"
  by (simp add: wrap_client_def np_dot_def dot_u64_def)

lemma wrap_body: "evaluate_body wrap_client [2 ^ 41 - 1] = Inr 1099494850561"
  unfolding evaluate_body_def wrap_dot
  apply (simp add: wrap_client_def to_u64_def)
  apply (simp add: np_remainder_def np_floor_divide_def Let_def)
  done

lemma wrap_spec: "evaluate_at_spec (2 ^ 40) (2 ^ 40) [2 ^ 41 - 1] [1] = 1"
  by (simp add: evaluate_at_spec_def Let_def)

text \<open>
  Claim C2 as stated fails where the product \<open>p * ip_mod_N\<close> exceeds 64 bits: at
  \<open>n = 1\<close>, \<open>N = p = 2^40\<close>, key \<open>[1]\<close> and hash vector \<open>[2^41 - 1]\<close> the code
  returns \<open>1099494850561\<close>, while the steps of the claim give \<open>1\<close>.
\<close>

theorem product_wraps:
  "hash_to_vector wrap_shake wrap_client [] 0 = Inr [2 ^ 41 - 1]
   \<and> evaluate wrap_shake wrap_client [] = Inr 1099494850561
   \<and> evaluate_at_spec (self_N wrap_client) (self_p wrap_client)
         (map uint [2 ^ 41 - 1 :: u64]) (map uint (self_s wrap_client)) = 1"
proof -
  have "evaluate wrap_shake wrap_client [] = Inr 1099494850561"
    by (simp only: evaluate_def wrap_hash sum.case wrap_body)
  moreover have "evaluate_at_spec (self_N wrap_client) (self_p wrap_client)
         (map uint [2 ^ 41 - 1 :: u64]) (map uint (self_s wrap_client)) = 1"
    using wrap_spec by (simp add: wrap_client_def)
  ultimately show ?thesis using wrap_hash by simp
qed

section \<open>The inner product\<close>

lemma evaluate_body_exact_ip:
  assumes "0 < self_N c" "2 * self_N c < 2 ^ 64" "0 \<le> self_p c" "self_p c < 2 ^ 64"
    and "length (self_s c) = self_n c"
    and "\<forall>b\<in>set (self_s c). b = 0 \<or> b = 1"
    and "int (self_n c) * (2 * self_N c - 1) < 2 ^ 64"
    and "length a = self_n c" "\<forall>v\<in>set a. uint v < 2 * self_N c"
  shows "\<exists>ip. np_dot a (self_s c) = Inr ip
           \<and> uint ip = (\<Sum>i<length a. uint (a ! i) * uint (self_s c ! i))
           \<and> evaluate_body c a = Inr (lwr_round (self_N c) (self_p c) ip)"
proof -
  have len: "length a = length (self_s c)" using assms(5,8) by simp
  have size: "int (length a) * (2 * self_N c - 1) < 2 ^ 64" using assms(7,8) by simp
  have N0: "0 \<le> self_N c" using assms(1) by simp
  note dot = np_dot_Inr [OF len]
  note exact = dot_u64_exact [OF len assms(9,6) size assms(1)]
  note body = evaluate_body_Inr [OF N0 assms(2,3,4) len]
  show ?thesis using dot exact body by simp
qed

text \<open>
  Claim C6, as amended. The evaluator accumulates the inner product in a 64-bit
  unsigned integer. When \<open>n * (2N - 1) < 2^64\<close>, for every hash vector in
  \<open>[0, 2N)^n\<close> and every binary key the inner product that \<^verbatim>\<open>evaluate\<close> and each slot
  of \<^verbatim>\<open>evaluate_multiple\<close> round is the exact integer sum of the products
  \<open>a[i] * s[i]\<close>: nothing is reduced during the accumulation.
\<close>

theorem inner_product_exact:
  assumes "0 < self_N c" "2 * self_N c < 2 ^ 64" "0 \<le> self_p c" "self_p c < 2 ^ 64"
    and "length (self_s c) = self_n c"
    and "\<forall>b\<in>set (self_s c). b = 0 \<or> b = 1"
    and "int (self_n c) * (2 * self_N c - 1) < 2 ^ 64"
  shows "(\<forall>a. length a = self_n c \<and> (\<forall>v\<in>set a. uint v < 2 * self_N c) \<longrightarrow>
            (\<exists>ip. np_dot a (self_s c) = Inr ip
               \<and> uint ip = (\<Sum>i<length a. uint (a ! i) * uint (self_s c ! i))
               \<and> evaluate_body c a = Inr (lwr_round (self_N c) (self_p c) ip)))
       \<and> (\<exists>a ip. hash_to_vector shake c x 0 = Inr a
               \<and> np_dot a (self_s c) = Inr ip
               \<and> uint ip = (\<Sum>i<length a. uint (a ! i) * uint (self_s c ! i))
               \<and> evaluate shake c x = Inr (lwr_round (self_N c) (self_p c) ip))
       \<and> (\<forall>i. int i < 2 ^ 64 \<longrightarrow>
            (\<exists>a ip. hash_to_vector shake c x (int i) = Inr a
               \<and> np_dot a (self_s c) = Inr ip
               \<and> uint ip = (\<Sum>i<length a. uint (a ! i) * uint (self_s c ! i))
               \<and> evaluate_multiple_slot shake c x i = Inr (lwr_round (self_N c) (self_p c) ip)))"
proof (intro conjI allI impI)
  fix a :: "u64 list"
  assume "length a = self_n c \<and> (\<forall>v\<in>set a. uint v < 2 * self_N c)"
  then have a: "length a = self_n c" "\<forall>v\<in>set a. uint v < 2 * self_N c" by simp_all
  show "\<exists>ip. np_dot a (self_s c) = Inr ip
           \<and> uint ip = (\<Sum>i<length a. uint (a ! i) * uint (self_s c ! i))
           \<and> evaluate_body c a = Inr (lwr_round (self_N c) (self_p c) ip)"
    by (rule evaluate_body_exact_ip [OF assms a])
next
  have "(0 :: int) \<le> 0" "(0 :: int) < 2 ^ 64" by simp_all
  from hash_to_vector_range [OF assms(1) this, of shake x]
  obtain a where a: "hash_to_vector shake c x 0 = Inr a" "length a = self_n c"
    "\<forall>v\<in>set a. uint v < 2 * self_N c"
    by blast
  from evaluate_body_exact_ip [OF assms a(2,3)] a(1)
  show "\<exists>a ip. hash_to_vector shake c x 0 = Inr a
               \<and> np_dot a (self_s c) = Inr ip
               \<and> uint ip = (\<Sum>i<length a. uint (a ! i) * uint (self_s c ! i))
               \<and> evaluate shake c x = Inr (lwr_round (self_N c) (self_p c) ip)"
    by (auto simp: evaluate_def)
next
  fix i :: nat assume i: "int i < 2 ^ 64"
  have "0 \<le> int i" by simp
  from hash_to_vector_range [OF assms(1) this i, of shake x]
  obtain a where a: "hash_to_vector shake c x (int i) = Inr a" "length a = self_n c"
    "\<forall>v\<in>set a. uint v < 2 * self_N c"
    by blast
  from evaluate_body_exact_ip [OF assms a(2,3)] a(1)
  show "\<exists>a ip. hash_to_vector shake c x (int i) = Inr a
               \<and> np_dot a (self_s c) = Inr ip
               \<and> uint ip = (\<Sum>i<length a. uint (a ! i) * uint (self_s c ! i))
               \<and> evaluate_multiple_slot shake c x i = Inr (lwr_round (self_N c) (self_p c) ip)"
    by (auto simp: evaluate_multiple_slot_eq)
qed

theorem inner_product_exact_witness:
  "0 < self_N demo_client \<and> 2 * self_N demo_client < 2 ^ 64
   \<and> 0 \<le> self_p demo_client \<and> self_p demo_client < 2 ^ 64
   \<and> length (self_s demo_client) = self_n demo_client
   \<and> list_all (\<lambda>b. b = 0 \<or> b = 1) (self_s demo_client)
   \<and> int (self_n demo_client) * (2 * self_N demo_client - 1) < 2 ^ 64
   \<and> length (replicate 445 4095 :: u64 list) = self_n demo_client
   \<and> list_all (\<lambda>v. uint v < 2 * self_N demo_client) (replicate 445 4095 :: u64 list)
   \<and> (\<exists>ip. np_dot (replicate 445 4095) (self_s demo_client) = Inr ip
          \<and> uint ip = (\<Sum>i<445. uint (replicate 445 (4095 :: u64) ! i) * uint (self_s demo_client ! i))
          \<and> evaluate_body demo_client (replicate 445 4095)
              = Inr (lwr_round (self_N demo_client) (self_p demo_client) ip))
   \<and> (\<exists>a ip. hash_to_vector demo_shake demo_client [1, 2, 3] 0 = Inr a
          \<and> np_dot a (self_s demo_client) = Inr ip
          \<and> uint ip = (\<Sum>i<length a. uint (a ! i) * uint (self_s demo_client ! i))
          \<and> evaluate demo_shake demo_client [1, 2, 3]
              = Inr (lwr_round (self_N demo_client) (self_p demo_client) ip))"
proof -
  have h: "0 < self_N demo_client" "2 * self_N demo_client < 2 ^ 64"
    "0 \<le> self_p demo_client" "self_p demo_client < 2 ^ 64"
    "length (self_s demo_client) = self_n demo_client"
    "\<forall>b\<in>set (self_s demo_client). b = 0 \<or> b = 1"
    "int (self_n demo_client) * (2 * self_N demo_client - 1) < 2 ^ 64"
    by (simp_all add: demo_client_def)
  have a: "length (replicate 445 4095 :: u64 list) = self_n demo_client"
    "\<forall>v\<in>set (replicate 445 4095 :: u64 list). uint v < 2 * self_N demo_client"
    by (simp_all add: demo_client_def)
  note T = inner_product_exact [OF h, of demo_shake "[1, 2, 3]"]
  from T a have b: "\<exists>ip. np_dot (replicate 445 4095) (self_s demo_client) = Inr ip
          \<and> uint ip = (\<Sum>i<length (replicate 445 4095 :: u64 list).
                         uint (replicate 445 (4095 :: u64) ! i) * uint (self_s demo_client ! i))
          \<and> evaluate_body demo_client (replicate 445 4095)
              = Inr (lwr_round (self_N demo_client) (self_p demo_client) ip)"
    by blast
  then have b': "\<exists>ip. np_dot (replicate 445 4095) (self_s demo_client) = Inr ip
          \<and> uint ip = (\<Sum>i<445. uint (replicate 445 (4095 :: u64) ! i) * uint (self_s demo_client ! i))
          \<and> evaluate_body demo_client (replicate 445 4095)
              = Inr (lwr_round (self_N demo_client) (self_p demo_client) ip)"
    by simp
  from T have e: "\<exists>a ip. hash_to_vector demo_shake demo_client [1, 2, 3] 0 = Inr a
          \<and> np_dot a (self_s demo_client) = Inr ip
          \<and> uint ip = (\<Sum>i<length a. uint (a ! i) * uint (self_s demo_client ! i))
          \<and> evaluate demo_shake demo_client [1, 2, 3]
              = Inr (lwr_round (self_N demo_client) (self_p demo_client) ip)"
    by blast
  have bin: "list_all (\<lambda>b. b = 0 \<or> b = 1) (self_s demo_client)"
    using h(6) by (simp add: list_all_iff)
  have rng: "list_all (\<lambda>v. uint v < 2 * self_N demo_client) (replicate 445 4095 :: u64 list)"
    using a(2) by (simp add: list_all_iff)
  show ?thesis by (intro conjI h(1-5) bin h(7) a(1) rng b' e)
qed

lemma wide_hash:
  "hash_to_vector full_shake wide_client [] 0 = Inr [2 ^ 63 - 1, 2 ^ 63 - 1, 2 ^ 63 - 1]"
  by (simp add: hash_to_vector_def wide_client_def to_bytes_little_def shake_update_def
      shake_new_def shake_digest_def Let_def py_slice_def full_shake_def to_u64_def
      upt_conv_Cons numeral_3_eq_3)

lemma wide_dot:
  "np_dot [2 ^ 63 - 1, 2 ^ 63 - 1, 2 ^ 63 - 1] (self_s wide_client) = Inr (2 ^ 63 - 3)"
  by (simp add: wide_client_def np_dot_def dot_u64_def)

lemma wide_body:
  "evaluate_body wide_client [2 ^ 63 - 1, 2 ^ 63 - 1, 2 ^ 63 - 1]
   = Inr (lwr_round (self_N wide_client) (self_p wide_client) (2 ^ 63 - 3))"
proof -
  have "evaluate_body wide_client [2 ^ 63 - 1, 2 ^ 63 - 1, 2 ^ 63 - 1]
        = Inr (lwr_round (self_N wide_client) (self_p wide_client)
                 (dot_u64 [2 ^ 63 - 1, 2 ^ 63 - 1, 2 ^ 63 - 1] (self_s wide_client)))"
    by (rule evaluate_body_Inr) (simp_all add: wide_client_def)
  moreover have "dot_u64 [2 ^ 63 - 1, 2 ^ 63 - 1, 2 ^ 63 - 1] (self_s wide_client) = 2 ^ 63 - 3"
    by (simp add: wide_client_def dot_u64_def)
  ultimately show ?thesis by (simp only:)
qed

text \<open>
  Claim C6 as stated fails beyond that bound: at \<open>n = 3\<close>, \<open>N = 2^62\<close>, key
  \<open>[1, 1, 1]\<close> and the hash vector \<open>[2^63 - 1, 2^63 - 1, 2^63 - 1]\<close> in \<open>[0, 2N)^n\<close>
  the evaluator rounds the inner product \<open>2^63 - 3\<close>, not the integer sum
  \<open>3 * 2^63 - 3\<close>.
\<close>

theorem inner_product_wraps:
  "hash_to_vector full_shake wide_client [] 0 = Inr [2 ^ 63 - 1, 2 ^ 63 - 1, 2 ^ 63 - 1]
   \<and> list_all (\<lambda>v. uint v < 2 * self_N wide_client)
         [2 ^ 63 - 1, 2 ^ 63 - 1, 2 ^ 63 - 1 :: u64]
   \<and> list_all (\<lambda>b. b = 0 \<or> b = 1) (self_s wide_client)
   \<and> np_dot [2 ^ 63 - 1, 2 ^ 63 - 1, 2 ^ 63 - 1] (self_s wide_client) = Inr (2 ^ 63 - 3)
   \<and> evaluate full_shake wide_client []
       = Inr (lwr_round (self_N wide_client) (self_p wide_client) (2 ^ 63 - 3))
   \<and> uint (2 ^ 63 - 3 :: u64) = 2 ^ 63 - 3
   \<and> uint (2 ^ 63 - 1 :: u64) * uint (1 :: u64) + uint (2 ^ 63 - 1 :: u64) * uint (1 :: u64)
       + uint (2 ^ 63 - 1 :: u64) * uint (1 :: u64) = 3 * 2 ^ 63 - 3
   \<and> uint (2 ^ 63 - 3 :: u64) \<noteq> 3 * 2 ^ 63 - 3"
proof -
  have e: "evaluate full_shake wide_client []
       = Inr (lwr_round (self_N wide_client) (self_p wide_client) (2 ^ 63 - 3))"
    by (simp only: evaluate_def wide_hash sum.case wide_body)
  have r: "list_all (\<lambda>v. uint v < 2 * self_N wide_client)
         [2 ^ 63 - 1, 2 ^ 63 - 1, 2 ^ 63 - 1 :: u64]"
    by (simp add: wide_client_def)
  have b: "list_all (\<lambda>b. b = 0 \<or> b = 1) (self_s wide_client)"
    by (simp add: wide_client_def)
  have u: "uint (2 ^ 63 - 3 :: u64) = 2 ^ 63 - 3" by simp
  have s: "uint (2 ^ 63 - 1 :: u64) * uint (1 :: u64) + uint (2 ^ 63 - 1 :: u64) * uint (1 :: u64)
       + uint (2 ^ 63 - 1 :: u64) * uint (1 :: u64) = 3 * 2 ^ 63 - 3"
    by simp
  have d: "uint (2 ^ 63 - 3 :: u64) \<noteq> 3 * 2 ^ 63 - 3" by simp
  show ?thesis by (intro conjI wide_hash r b wide_dot e u s d)
qed

section \<open>Loading the key\<close>

lemma np_array_u64_ints_Inr:
  "\<forall>v\<in>set vs. 0 \<le> v \<and> v < 2 ^ 64 \<Longrightarrow> np_array_u64 (map JInt vs) = Inr (map word_of_int vs)"
  by (induction vs) (simp_all add: to_u64_Inr)

lemma np_array_u64_ints_Inl:
  "\<exists>v\<in>set vs. v < 0 \<or> 2 ^ 64 \<le> v \<Longrightarrow> np_array_u64 (map JInt vs) = Inl OverflowError"
proof (induction vs)
  case Nil
  then show ?case by simp
next
  case (Cons v vs)
  show ?case
  proof (cases "0 \<le> v \<and> v < 2 ^ 64")
    case True
    with Cons.prems have "\<exists>v\<in>set vs. v < 0 \<or> 2 ^ 64 \<le> v" by auto
    from Cons.IH [OF this] True show ?thesis by (simp add: to_u64_def)
  next
    case False
    then show ?thesis by (auto simp: to_u64_def)
  qed
qed

lemma binary_words_iff:
  assumes "\<forall>v\<in>set vs. 0 \<le> v \<and> v < 2 ^ 64"
  shows "list_all (\<lambda>w. w = 0 \<or> w = 1) (map word_of_int vs :: u64 list)
         \<longleftrightarrow> (\<forall>v\<in>set vs. v = 0 \<or> v = 1)"
proof -
  have "(word_of_int v :: u64) = 0 \<longleftrightarrow> v = 0" "(word_of_int v :: u64) = 1 \<longleftrightarrow> v = 1"
    if "0 \<le> v" "v < 2 ^ 64" for v
  proof -
    have u: "uint (word_of_int v :: u64) = v" using that by (rule uint_word_of_int_u64)
    show "(word_of_int v :: u64) = 0 \<longleftrightarrow> v = 0" using u by (metis uint_0_eq word_of_int_0)
    show "(word_of_int v :: u64) = 1 \<longleftrightarrow> v = 1" using u by (metis uint_1_eq word_of_int_1)
  qed
  with assms show ?thesis by (auto simp: list_all_iff)
qed

text \<open>
  On key files whose elements are all integers the loader behaves as described:
  an error exactly when the dimension differs or an element is not \<open>0\<close> or \<open>1\<close>,
  the dimension error first, and on success the key is the stored sequence.
\<close>

lemma load_secret_key_int_entries:
  "((\<exists>e. load_secret_key c \<lparr>n_lwr = d, secret_key = map JInt vs\<rparr> = Inl e)
      \<longleftrightarrow> (d \<noteq> int (self_n c) \<or> (\<exists>v\<in>set vs. v \<noteq> 0 \<and> v \<noteq> 1)))
   \<and> (d \<noteq> int (self_n c) \<longrightarrow>
        load_secret_key c \<lparr>n_lwr = d, secret_key = map JInt vs\<rparr> = Inl ValueError_DimensionMismatch)
   \<and> (d = int (self_n c) \<and> (\<forall>v\<in>set vs. v = 0 \<or> v = 1) \<longrightarrow>
        load_secret_key c \<lparr>n_lwr = d, secret_key = map JInt vs\<rparr>
          = Inr (c\<lparr>self_s := map word_of_int vs\<rparr>)
        \<and> map uint (map word_of_int vs :: u64 list) = vs)"
proof (cases "\<forall>v\<in>set vs. 0 \<le> v \<and> v < 2 ^ 64")
  case True
  note arr = np_array_u64_ints_Inr [OF True]
  note bin = binary_words_iff [OF True]
  have roundtrip: "map uint (map word_of_int vs :: u64 list) = vs"
    using True by (simp add: map_idI uint_word_of_int_u64 comp_def)
  show ?thesis
    using bin roundtrip by (auto simp: load_secret_key_def arr Let_def)
next
  case False
  then obtain v where v: "v \<in> set vs" "\<not> (0 \<le> v \<and> v < 2 ^ 64)" by blast
  then have "v < 0 \<or> 2 ^ 64 \<le> v" by linarith
  with v(1) have bad: "\<exists>v\<in>set vs. v < 0 \<or> 2 ^ 64 \<le> v" by blast
  have "v \<noteq> 0 \<and> v \<noteq> 1" using v(2) by auto
  with v(1) have nb: "\<exists>v\<in>set vs. v \<noteq> 0 \<and> v \<noteq> 1" by blast
  then have nall: "\<not> (\<forall>v\<in>set vs. v = 0 \<or> v = 1)" by blast
  note arr = np_array_u64_ints_Inl [OF bad]
  show ?thesis
    using nb nall by (simp add: load_secret_key_def arr)
qed

text \<open>
  Claim C7. Loading must raise an error whenever a stored key element is not
  exactly \<open>0\<close> or \<open>1\<close>. The code converts the stored list to \<^verbatim>\<open>uint64\<close> before it
  checks the values, so the stored element \<open>0.5\<close> is truncated to \<open>0\<close> and passes
  the check: the key file with dimension \<open>2\<close> and elements \<open>[0.5, 1]\<close> loads without
  an error, and the key in memory is \<open>[0, 1]\<close>, which is not the stored sequence.
\<close>

theorem load_accepts_fraction:
  "load_secret_key small_client \<lparr>n_lwr = 2, secret_key = [JFloat (1 / 2), JInt 1]\<rparr>
   = Inr (small_client\<lparr>self_s := [0, 1]\<rparr>)"
  by (simp add: load_secret_key_def small_client_def py_trunc_def to_u64_def Let_def)

section \<open>The transcipher\<close>

lemma encrypt_zip_Inr:
  assumes "0 \<le> p" "p < 2 ^ 64"
  shows "\<forall>m\<in>set ms. 0 \<le> m \<and> m < 2 ^ 64 \<Longrightarrow>
         encrypt_zip p ms ks
         = Inr (map (\<lambda>(m, k). np_remainder (word_of_int m + k) (word_of_int p)) (zip ms ks))"
proof (induction ms arbitrary: ks)
  case Nil
  show ?case by simp
next
  case (Cons m ms)
  show ?case
  proof (cases ks)
    case Nil
    then show ?thesis by simp
  next
    case (Cons k ks')
    have "encrypt_zip p ms ks'
          = Inr (map (\<lambda>(m, k). np_remainder (word_of_int m + k) (word_of_int p)) (zip ms ks'))"
      using Cons.prems by (intro Cons.IH) simp
    then show ?thesis
      using Cons Cons.prems assms by (simp add: to_u64_Inr)
  qed
qed

lemma encrypt_zip_error: "encrypt_zip p ms ks = Inl e \<Longrightarrow> e = OverflowError"
  by (induction p ms ks arbitrary: e rule: encrypt_zip.induct)
     (auto simp: to_u64_def split: if_splits sum.splits)

lemma encrypt_zip_rejects:
  "length ms = length ks \<Longrightarrow> \<exists>m\<in>set ms. m < 0 \<or> 2 ^ 64 \<le> m \<Longrightarrow>
   \<exists>e. encrypt_zip p ms ks = Inl e"
proof (induction ms ks rule: list_induct2)
  case Nil
  then show ?case by simp
next
  case (Cons m ms k ks)
  show ?case
  proof (cases "m < 0 \<or> 2 ^ 64 \<le> m")
    case True
    then have "to_u64 m = Inl OverflowError" by (auto simp: to_u64_def)
    then show ?thesis by simp
  next
    case False
    with Cons.prems have "\<exists>m\<in>set ms. m < 0 \<or> 2 ^ 64 \<le> m" by auto
    from Cons.IH [OF this] obtain e where "encrypt_zip p ms ks = Inl e" by blast
    then show ?thesis by (simp split: sum.splits)
  qed
qed


lemma decrypt_zip_Inr:
  "p \<noteq> 0 \<Longrightarrow>
   decrypt_zip p cs ks = Inr (map (\<lambda>(c, k). (c + p - uint k) mod p) (zip cs ks))"
  by (induction p cs ks rule: decrypt_zip.induct) simp_all


lemma encrypt_element:
  assumes "0 < p" "p < 2 ^ 64" "0 \<le> m" "m + uint k < 2 ^ 64"
  shows "uint (np_remainder (word_of_int m + k) (word_of_int p)) = (m + uint k) mod p"
proof -
  have up: "uint (word_of_int p :: u64) = p"
    using assms by (simp add: uint_word_of_int_u64)
  then have nz: "(word_of_int p :: u64) \<noteq> 0"
    using assms(1) by (metis less_irrefl uint_0_eq)
  have "word_of_int m + k = (word_of_int (m + uint k) :: u64)"
    by simp
  moreover have "uint (word_of_int (m + uint k) :: u64) = m + uint k"
    using assms(3,4) by (intro uint_word_of_int_u64) simp_all
  ultimately have "uint (word_of_int m + k) = m + uint k" by simp
  then show ?thesis
    using nz up by (simp add: np_remainder_def uint_mod)
qed

lemma roundtrip_element:
  assumes "0 < p" "p \<le> 2 ^ 63" "0 \<le> m" "m < p" "uint k < p"
  shows "(uint (np_remainder (word_of_int m + k) (word_of_int p)) + p - uint k) mod p = m"
proof -
  have "m + uint k < 2 ^ 64" using assms by simp
  moreover have "p < 2 ^ 64" using assms(2) by simp
  ultimately have "uint (np_remainder (word_of_int m + k) (word_of_int p)) = (m + uint k) mod p"
    using assms by (intro encrypt_element) simp_all
  moreover have "((m + uint k) mod p + p - uint k) mod p = m mod p"
    by (metis add.commute add_diff_cancel_left' mod_add_left_eq mod_add_self2 mod_diff_left_eq add_diff_eq)
  ultimately show ?thesis using assms(3,4) by simp
qed

lemma roundtrip_lists:
  assumes "0 < p" "p \<le> 2 ^ 63"
  shows "length ms = length ks \<Longrightarrow> \<forall>m\<in>set ms. 0 \<le> m \<and> m < p \<Longrightarrow>
         \<forall>k\<in>set ks. uint k < p \<Longrightarrow>
         map (\<lambda>(c, k). (c + p - uint k) mod p)
           (zip (map uint (map (\<lambda>(m, k). np_remainder (word_of_int m + k) (word_of_int p))
                              (zip ms ks))) ks) = ms"
proof (induction ms ks rule: list_induct2)
  case Nil
  show ?case by simp
next
  case (Cons m ms k ks)
  have "(uint (np_remainder (word_of_int m + k) (word_of_int p)) + p - uint k) mod p = m"
    using Cons.prems assms by (intro roundtrip_element) simp_all
  then show ?case using Cons by simp
qed

lemma encrypt_message_Inr:
  assumes "0 < self_N c" "2 * self_N c < 2 ^ 64" "0 < self_p c" "self_p c < 2 ^ 64"
    and "length (self_s c) = self_n c"
    and "int (length message) \<le> 2 ^ 64"
    and "\<forall>m\<in>set message. 0 \<le> m \<and> m < 2 ^ 64"
  shows "\<exists>ks. evaluate_multiple shake c nonce (int (length message)) = Inr ks
           \<and> length ks = length message
           \<and> (\<forall>k\<in>set ks. 0 \<le> uint k \<and> uint k < self_p c)
           \<and> encrypt_message shake c message nonce
               = Inr (nonce, map (\<lambda>(m, k). np_remainder (word_of_int m + k) (word_of_int (self_p c)))
                               (zip message ks))"
proof -
  from evaluate_multiple_range [OF assms(1-6), of shake nonce]
  obtain ks where ks: "evaluate_multiple shake c nonce (int (length message)) = Inr ks"
    "length ks = length message" "\<forall>k\<in>set ks. 0 \<le> uint k \<and> uint k < self_p c"
    by auto
  have p0: "0 \<le> self_p c" using assms(3) by simp
  note enc = encrypt_zip_Inr [OF p0 assms(4) assms(7), of ks]
  show ?thesis using ks enc by (simp add: encrypt_message_def)
qed

lemma encrypt_message_rejects:
  assumes "0 < self_N c" "2 * self_N c < 2 ^ 64" "0 \<le> self_p c" "self_p c < 2 ^ 64"
    and "length (self_s c) = self_n c"
    and "int (length message) \<le> 2 ^ 64"
    and "\<exists>m\<in>set message. m < 0 \<or> 2 ^ 64 \<le> m"
  shows "encrypt_message shake c message nonce = Inl OverflowError"
proof -
  obtain ks where ks: "evaluate_multiple shake c nonce (int (length message)) = Inr ks"
    using evaluate_multiple_total [OF assms(1-6)] by blast
  then have len: "length message = length ks"
    using evaluate_multiple_sound [OF ks] by simp
  from encrypt_zip_rejects [OF len assms(7)]
  obtain e where e: "encrypt_zip (self_p c) message ks = Inl e" by blast
  then have "e = OverflowError" by (rule encrypt_zip_error)
  with ks e show ?thesis by (simp add: encrypt_message_def)
qed

lemma decrypt_message_Inr:
  assumes "0 < self_N c" "2 * self_N c < 2 ^ 64" "0 < self_p c" "self_p c < 2 ^ 64"
    and "length (self_s c) = self_n c"
    and "int (length ciphertext) \<le> 2 ^ 64"
  shows "\<exists>ks. evaluate_multiple shake c nonce (int (length ciphertext)) = Inr ks
           \<and> length ks = length ciphertext
           \<and> decrypt_message shake c nonce ciphertext
               = Inr (map (\<lambda>(x, k). (x + self_p c - uint k) mod self_p c) (zip ciphertext ks))"
proof -
  from evaluate_multiple_range [OF assms(1-6), of shake nonce]
  obtain ks where ks: "evaluate_multiple shake c nonce (int (length ciphertext)) = Inr ks"
    "length ks = length ciphertext"
    by auto
  have "self_p c \<noteq> 0" using assms(3) by simp
  note dec = decrypt_zip_Inr [OF this, of ciphertext ks]
  show ?thesis using ks dec by (simp add: decrypt_message_def)
qed

text \<open>
  Claim C1. With one client (the same secret key) on in-range parameters with
  \<open>p \<le> 2^63\<close>, for every nonce and every message with all elements in \<open>[0, p)\<close>,
  \<^verbatim>\<open>encrypt_message\<close> returns the nonce and a ciphertext, and \<^verbatim>\<open>decrypt_message\<close> on
  that nonce and ciphertext returns the message.
\<close>

theorem decrypt_encrypt_roundtrip:
  assumes "0 < self_N c" "2 * self_N c < 2 ^ 64" "0 < self_p c" "self_p c \<le> 2 ^ 63"
    and "length (self_s c) = self_n c"
    and "int (length message) \<le> 2 ^ 64"
    and "\<forall>m\<in>set message. 0 \<le> m \<and> m < self_p c"
  shows "\<exists>ciphertext. encrypt_message shake c message nonce = Inr (nonce, ciphertext)
           \<and> decrypt_message shake c nonce (map uint ciphertext) = Inr message"
proof -
  have p64: "self_p c < 2 ^ 64" using assms(4) by simp
  have inr: "\<forall>m\<in>set message. 0 \<le> m \<and> m < 2 ^ 64" using assms(7) p64 by auto
  from encrypt_message_Inr [OF assms(1-3) p64 assms(5,6) inr, of shake nonce]
  obtain ks where ks: "evaluate_multiple shake c nonce (int (length message)) = Inr ks"
    "length ks = length message" "\<forall>k\<in>set ks. 0 \<le> uint k \<and> uint k < self_p c"
    and enc: "encrypt_message shake c message nonce
      = Inr (nonce, map (\<lambda>(m, k). np_remainder (word_of_int m + k) (word_of_int (self_p c)))
                      (zip message ks))"
    by blast
  let ?ct = "map (\<lambda>(m, k). np_remainder (word_of_int m + k) (word_of_int (self_p c))) (zip message ks)"
  have len: "length (map uint ?ct) = length message" using ks(2) by simp
  have "self_p c \<noteq> 0" using assms(3) by simp
  then have "decrypt_message shake c nonce (map uint ?ct)
        = Inr (map (\<lambda>(x, k). (x + self_p c - uint k) mod self_p c) (zip (map uint ?ct) ks))"
    unfolding decrypt_message_def len ks(1) by (simp add: decrypt_zip_Inr)
  moreover have "map (\<lambda>(x, k). (x + self_p c - uint k) mod self_p c) (zip (map uint ?ct) ks) = message"
    using ks(2,3) assms(7) by (intro roundtrip_lists [OF assms(3,4)]) simp_all
  ultimately show ?thesis using enc by simp
qed

theorem decrypt_encrypt_roundtrip_witness:
  "0 < self_N demo_client \<and> 2 * self_N demo_client < 2 ^ 64
   \<and> 0 < self_p demo_client \<and> self_p demo_client \<le> 2 ^ 63
   \<and> length (self_s demo_client) = self_n demo_client
   \<and> int (length demo_message) \<le> 2 ^ 64
   \<and> list_all (\<lambda>m. 0 \<le> m \<and> m < self_p demo_client) demo_message
   \<and> (\<exists>ciphertext. encrypt_message demo_shake demo_client demo_message [1, 2, 3]
                        = Inr ([1, 2, 3], ciphertext)
          \<and> decrypt_message demo_shake demo_client [1, 2, 3] (map uint ciphertext)
                        = Inr demo_message)"
proof -
  have h: "0 < self_N demo_client" "2 * self_N demo_client < 2 ^ 64"
    "0 < self_p demo_client" "self_p demo_client \<le> 2 ^ 63"
    "length (self_s demo_client) = self_n demo_client"
    "int (length demo_message) \<le> 2 ^ 64"
    "\<forall>m\<in>set demo_message. 0 \<le> m \<and> m < self_p demo_client"
    by (simp_all add: demo_client_def demo_message_def)
  from decrypt_encrypt_roundtrip [OF h, of demo_shake "[1, 2, 3]"] h
  show ?thesis by (simp add: list_all_iff)
qed

text \<open>
  Claim C10, as amended. On in-range parameters \<^verbatim>\<open>encrypt_message\<close> accepts the
  messages whose elements are in \<open>[0, 2^64)\<close>, also those not below \<open>p\<close>, and returns
  a ciphertext of the same length with every element in \<open>[0, p)\<close>; a message with
  a negative element or one not below \<open>2^64\<close> is rejected with \<^verbatim>\<open>OverflowError\<close>.
  \<^verbatim>\<open>decrypt_message\<close> accepts arbitrary integers and returns a sequence of the same
  length with every element in \<open>[0, p)\<close>.
\<close>

theorem transcipher_ranges:
  assumes "0 < self_N c" "2 * self_N c < 2 ^ 64" "0 < self_p c" "self_p c < 2 ^ 64"
    and "length (self_s c) = self_n c"
    and "int (length message) \<le> 2 ^ 64" "int (length ciphertext) \<le> 2 ^ 64"
  shows "((\<forall>m\<in>set message. 0 \<le> m \<and> m < 2 ^ 64) \<longrightarrow>
            (\<exists>ct. encrypt_message shake c message nonce = Inr (nonce, ct)
               \<and> length ct = length message
               \<and> (\<forall>x\<in>set ct. 0 \<le> uint x \<and> uint x < self_p c)))
       \<and> ((\<exists>m\<in>set message. m < 0 \<or> 2 ^ 64 \<le> m) \<longrightarrow>
            encrypt_message shake c message nonce = Inl OverflowError)
       \<and> (\<exists>ms. decrypt_message shake c nonce ciphertext = Inr ms
               \<and> length ms = length ciphertext
               \<and> (\<forall>x\<in>set ms. 0 \<le> x \<and> x < self_p c))"
proof (intro conjI impI)
  assume inr: "\<forall>m\<in>set message. 0 \<le> m \<and> m < 2 ^ 64"
  from encrypt_message_Inr [OF assms(1-6) inr, of shake nonce]
  obtain ks where "evaluate_multiple shake c nonce (int (length message)) = Inr ks"
    and ks: "length ks = length message"
    and enc: "encrypt_message shake c message nonce
      = Inr (nonce, map (\<lambda>(m, k). np_remainder (word_of_int m + k) (word_of_int (self_p c)))
                      (zip message ks))"
    by blast
  have up: "uint (word_of_int (self_p c) :: u64) = self_p c"
    using assms(3,4) by (simp add: uint_word_of_int_u64)
  then have nz: "(word_of_int (self_p c) :: u64) \<noteq> 0"
    using assms(3) by (metis less_irrefl uint_0_eq)
  have "uint (np_remainder w (word_of_int (self_p c))) < self_p c" for w :: u64
    using nz up assms(3) by (simp add: np_remainder_def uint_mod)
  then have "\<forall>x\<in>set (map (\<lambda>(m, k). np_remainder (word_of_int m + k) (word_of_int (self_p c)))
                      (zip message ks)). 0 \<le> uint x \<and> uint x < self_p c"
    by auto
  with enc ks show "\<exists>ct. encrypt_message shake c message nonce = Inr (nonce, ct)
               \<and> length ct = length message
               \<and> (\<forall>x\<in>set ct. 0 \<le> uint x \<and> uint x < self_p c)"
    by simp
next
  assume "\<exists>m\<in>set message. m < 0 \<or> 2 ^ 64 \<le> m"
  moreover have "0 \<le> self_p c" using assms(3) by simp
  ultimately show "encrypt_message shake c message nonce = Inl OverflowError"
    using assms by (intro encrypt_message_rejects) simp_all
next
  from decrypt_message_Inr [OF assms(1-5,7), of shake nonce]
  obtain ks where "evaluate_multiple shake c nonce (int (length ciphertext)) = Inr ks"
    and ks: "length ks = length ciphertext"
    and dec: "decrypt_message shake c nonce ciphertext
      = Inr (map (\<lambda>(x, k). (x + self_p c - uint k) mod self_p c) (zip ciphertext ks))"
    by blast
  have "\<forall>x\<in>set (map (\<lambda>(x, k). (x + self_p c - uint k) mod self_p c) (zip ciphertext ks)).
          0 \<le> x \<and> x < self_p c"
    using assms(3) by auto
  with dec ks show "\<exists>ms. decrypt_message shake c nonce ciphertext = Inr ms
               \<and> length ms = length ciphertext
               \<and> (\<forall>x\<in>set ms. 0 \<le> x \<and> x < self_p c)"
    by simp
qed

theorem transcipher_ranges_witness:
  "0 < self_N demo_client \<and> 2 * self_N demo_client < 2 ^ 64
   \<and> 0 < self_p demo_client \<and> self_p demo_client < 2 ^ 64
   \<and> length (self_s demo_client) = self_n demo_client
   \<and> int (length [40, 7 :: int]) \<le> 2 ^ 64 \<and> int (length [- 3, 100 :: int]) \<le> 2 ^ 64
   \<and> list_all (\<lambda>m. 0 \<le> m \<and> m < 2 ^ 64) [40, 7 :: int]
   \<and> (\<exists>ct. encrypt_message demo_shake demo_client [40, 7] [1, 2, 3] = Inr ([1, 2, 3], ct)
          \<and> length ct = length [40, 7 :: int]
          \<and> list_all (\<lambda>x. 0 \<le> uint x \<and> uint x < 32) ct)
   \<and> (\<exists>ms. decrypt_message demo_shake demo_client [1, 2, 3] [- 3, 100] = Inr ms
          \<and> length ms = length [- 3, 100 :: int]
          \<and> list_all (\<lambda>x. 0 \<le> x \<and> x < 32) ms)"
proof -
  have h: "0 < self_N demo_client" "2 * self_N demo_client < 2 ^ 64"
    "0 < self_p demo_client" "self_p demo_client < 2 ^ 64"
    "length (self_s demo_client) = self_n demo_client"
    "int (length [40, 7 :: int]) \<le> 2 ^ 64" "int (length [- 3, 100 :: int]) \<le> 2 ^ 64"
    by (simp_all add: demo_client_def)
  have inr: "\<forall>m\<in>set [40, 7 :: int]. 0 \<le> m \<and> m < 2 ^ 64" by simp
  note T = transcipher_ranges [OF h, of demo_shake "[1, 2, 3]"]
  from T inr have e: "\<exists>ct. encrypt_message demo_shake demo_client [40, 7] [1, 2, 3] = Inr ([1, 2, 3], ct)
          \<and> length ct = length [40, 7 :: int]
          \<and> (\<forall>x\<in>set ct. 0 \<le> uint x \<and> uint x < self_p demo_client)"
    by blast
  from T have d: "\<exists>ms. decrypt_message demo_shake demo_client [1, 2, 3] [- 3, 100] = Inr ms
          \<and> length ms = length [- 3, 100 :: int]
          \<and> (\<forall>x\<in>set ms. 0 \<le> x \<and> x < self_p demo_client)"
    by blast
  have p: "self_p demo_client = 32" by (simp add: demo_client_def)
  have e': "\<exists>ct. encrypt_message demo_shake demo_client [40, 7] [1, 2, 3] = Inr ([1, 2, 3], ct)
          \<and> length ct = length [40, 7 :: int]
          \<and> list_all (\<lambda>x. 0 \<le> uint x \<and> uint x < 32) ct"
    using e unfolding p list_all_iff .
  have d': "\<exists>ms. decrypt_message demo_shake demo_client [1, 2, 3] [- 3, 100] = Inr ms
          \<and> length ms = length [- 3, 100 :: int]
          \<and> list_all (\<lambda>x. 0 \<le> x \<and> x < 32) ms"
    using d unfolding p list_all_iff .
  have inr': "list_all (\<lambda>m. 0 \<le> m \<and> m < 2 ^ 64) [40, 7 :: int]" by simp
  show ?thesis by (intro conjI h inr' e' d')
qed

text \<open>
  Claim C10 as stated fails: the message \<open>[-1]\<close> is rejected, not reduced
  modulo \<open>p\<close>, because \<open>-1\<close> is added to a \<^verbatim>\<open>np.uint64\<close> keystream element.
\<close>

theorem encrypt_rejects_negative:
  "encrypt_message demo_shake demo_client [- 1] [1, 2, 3] = Inl OverflowError"
proof -
  have h: "0 < self_N demo_client" "2 * self_N demo_client < 2 ^ 64"
    "0 \<le> self_p demo_client" "self_p demo_client < 2 ^ 64"
    "length (self_s demo_client) = self_n demo_client"
    "int (length [- 1 :: int]) \<le> 2 ^ 64"
    "\<exists>m\<in>set [- 1 :: int]. m < 0 \<or> 2 ^ 64 \<le> m"
    by (simp_all add: demo_client_def)
  show ?thesis by (rule encrypt_message_rejects [OF h])
qed



section \<open>Determinism of the domain hash\<close>

text \<open>
  Claim C9. Two runs of \<^verbatim>\<open>hash_to_vector\<close> with the same input bytes, the same
  index and the same parameters \<open>n\<close> and \<open>N\<close> return the same result, whatever
  the rest of the two client objects (the secret key, \<open>p\<close>, the key file).
\<close>

theorem hash_to_vector_deterministic:
  assumes "self_n c1 = self_n c2" "self_N c1 = self_N c2" "x1 = x2" "index1 = index2"
  shows "hash_to_vector shake c1 x1 index1 = hash_to_vector shake c2 x2 index2"
  unfolding hash_to_vector_def assms by (rule refl)

theorem hash_to_vector_deterministic_witness:
  "self_n demo_client
     = self_n (demo_client\<lparr>self_p := 7, self_key_file := ''other.json'', self_s := replicate 445 0\<rparr>)
   \<and> self_N demo_client
     = self_N (demo_client\<lparr>self_p := 7, self_key_file := ''other.json'', self_s := replicate 445 0\<rparr>)
   \<and> hash_to_vector demo_shake demo_client [1, 2, 3] 5
     = hash_to_vector demo_shake
         (demo_client\<lparr>self_p := 7, self_key_file := ''other.json'', self_s := replicate 445 0\<rparr>)
         [1, 2, 3] 5"
proof -
  let ?c2 = "demo_client\<lparr>self_p := 7, self_key_file := ''other.json'', self_s := replicate 445 0\<rparr>"
  have h: "self_n demo_client = self_n ?c2" "self_N demo_client = self_N ?c2" by simp_all
  from hash_to_vector_deterministic [OF h refl refl, of demo_shake "[1, 2, 3]" 5] h
  show ?thesis by blast
qed

end
